theory Spec2Isabelle
  imports Main "HOL-Library.Word" "HOL-Library.List_Lexorder"
begin

unbundle bit_operations_syntax

section \<open>Fleece: the encoder (Encoder.cc) and the hash array mapped trie (HAMTree.cc)\<close>

text \<open>
  Both translation units are embedded as pure functions. Mutation is explicit state
  passing, a \<^verbatim>\<open>throw\<close>, a failed \<^verbatim>\<open>assert\<close> and a read through a null or
  out-of-range pointer are the \<open>Inl\<close> branch of a sum type. The headers of the repository
  (Value.hh, Encoder.hh, Writer.hh, StringTable.hh, varint.hh, slice.hh, HAMTree.hh) are not
  part of the sources at hand; what the two files use from them is modelled from the
  specification and marked as such.
\<close>

type_synonym byte = "8 word"

datatype error =
    NeedKey            \<comment> \<open>\<^verbatim>\<open>throw "need a key before this value"\<close>\<close>
  | NoKeyHere          \<comment> \<open>\<^verbatim>\<open>throw "need a value after a key"\<close>, \<^verbatim>\<open>throw "not writing a dictionary"\<close>\<close>
  | Unbalanced         \<comment> \<open>the throws of \<^verbatim>\<open>end\<close>, \<^verbatim>\<open>endDictionary\<close>, \<^verbatim>\<open>endCollection\<close>\<close>
  | AssertionFailed    \<comment> \<open>a failed \<^verbatim>\<open>assert\<close>\<close>
  | NullDeref          \<comment> \<open>access through a null pointer or outside an array\<close>
  | DanglingNode       \<comment> \<open>a pointer kept to a node that \<^verbatim>\<open>grow\<close> has deleted\<close>
  | BadCast            \<comment> \<open>a leaf used as an interior node\<close>

definition bind_res :: "error + 'a \<Rightarrow> ('a \<Rightarrow> error + 'b) \<Rightarrow> error + 'b" where
  "bind_res m f = (case m of Inl err \<Rightarrow> Inl err | Inr x \<Rightarrow> f x)"

subsection \<open>Value words (Value.hh)\<close>

text \<open>
  Modelled from the spec: the tag numbering of Value.hh (the enum \<^verbatim>\<open>tags\<close>), section 3.1:
  the high nibble of the first byte of a value word.
\<close>

datatype tags = kShortIntTag | kIntTag | kFloatTag | kSpecialTag | kStringTag | kBinaryTag
  | kArrayTag | kDictTag | kPointerTagFirst

fun tag_code :: "tags \<Rightarrow> byte" where
  "tag_code kShortIntTag = 0"
| "tag_code kIntTag = 1"
| "tag_code kFloatTag = 2"
| "tag_code kSpecialTag = 3"
| "tag_code kStringTag = 4"
| "tag_code kBinaryTag = 5"
| "tag_code kArrayTag = 6"
| "tag_code kDictTag = 7"
| "tag_code kPointerTagFirst = 8"

text \<open>Modelled from the spec: the widths of a value word (section 3.1), \<^verbatim>\<open>kNarrow\<close> and
  \<^verbatim>\<open>kWide\<close> of Value.hh.\<close>

definition kNarrow :: nat where "kNarrow = 2"
definition kWide :: nat where "kWide = 4"

text \<open>Modelled from the spec: the special values of Value.hh (section 3.1: low nibble
  0 is null, 2 is false, 3 is true).\<close>

definition kSpecialValueNull :: byte where "kSpecialValueNull = 0"
definition kSpecialValueFalse :: byte where "kSpecialValueFalse = 2"
definition kSpecialValueTrue :: byte where "kSpecialValueTrue = 3"

text \<open>Modelled from the spec: \<^verbatim>\<open>kMaxSharedStringSize\<close> of Encoder.hh (section 3.2 names 15).\<close>

definition kMaxSharedStringSize :: nat where "kMaxSharedStringSize = 15"

text \<open>The class \<^verbatim>\<open>value\<close>: four bytes; a narrow word is the first two of them.\<close>

datatype value_t = Value (byte0: byte) (byte1: byte) (byte2: byte) (byte3: byte)

definition value_bytes :: "value_t \<Rightarrow> byte list" where
  "value_bytes v = [byte0 v, byte1 v, byte2 v, byte3 v]"

text \<open>Modelled from the spec: the constructor \<^verbatim>\<open>value(tag, tiny, byte1)\<close> of Value.hh
  (section 4.D: tag, high-nibble payload, low byte).\<close>

definition value_inline :: "tags \<Rightarrow> byte \<Rightarrow> byte \<Rightarrow> value_t" where
  "value_inline t tiny b1 = Value (push_bit 4 (tag_code t) OR tiny) b1 0 0"

text \<open>
  Modelled from the spec: the constructor \<^verbatim>\<open>value(offset, width)\<close> of Value.hh
  (section 3.1: the top bit of the first byte marks a pointer, the low 15 or 31 bits hold
  the byte offset divided by 2, most significant byte first). The spec gives the
  constructor no failure: of an offset that does not fit, the word holds the low 15 or
  31 bits of the half, as the bytes of \<^verbatim>\<open>off | 0x8000\<close> in 16 bits and of
  \<^verbatim>\<open>off | 0x80000000\<close> in 32 bits do.
\<close>

definition value_pointer :: "nat \<Rightarrow> nat \<Rightarrow> value_t" where
  "value_pointer offset width =
     (let off = offset div 2 in
      if width < kWide then
        Value (of_nat (off div 256) OR 0x80) (of_nat (off mod 256)) 0 0
      else
        Value (of_nat (off div 16777216) OR 0x80) (of_nat (off div 65536 mod 256))
              (of_nat (off div 256 mod 256)) (of_nat (off mod 256)))"

text \<open>Modelled from the spec: \<^verbatim>\<open>value::isPointer\<close> and \<^verbatim>\<open>value::pointerValue\<close> of
  Value.hh, the readers of the two pointer layouts above.\<close>

definition isPointer :: "value_t \<Rightarrow> bool" where
  "isPointer v = (byte0 v AND 0x80 \<noteq> 0)"

definition pointerValue :: "bool \<Rightarrow> value_t \<Rightarrow> nat" where
  "pointerValue isWide v =
     (if isWide then
        2 * (unat (byte0 v AND 0x7F) * 16777216 + unat (byte1 v) * 65536
             + unat (byte2 v) * 256 + unat (byte3 v))
      else 2 * (unat (byte0 v AND 0x7F) * 256 + unat (byte1 v)))"

subsection \<open>Varints and integers (varint.hh)\<close>

text \<open>Modelled from the spec: \<^verbatim>\<open>PutUVarInt\<close> (section 4.A: 7-bit little-endian groups,
  continuation bit 0x80); the bytes written, whose number the C function returns.\<close>

function PutUVarInt :: "nat \<Rightarrow> byte list" where
  "PutUVarInt n = (if n < 128 then [of_nat n] else of_nat (n mod 128 + 128) # PutUVarInt (n div 128))"
  by pat_completeness auto
termination
  by (relation "measure (\<lambda>n. n)") auto

declare PutUVarInt.simps [simp del]

text \<open>Modelled from the spec: \<^verbatim>\<open>PutIntOfLength\<close> (section 4.A: the minimum number of
  little-endian bytes that preserves the value; for a signed value the sign is the top bit
  of the last byte; between 1 and 8 bytes).\<close>

definition int_fits :: "bool \<Rightarrow> 64 word \<Rightarrow> nat \<Rightarrow> bool" where
  "int_fits isUnsigned i n =
     (if isUnsigned then uint i < 2 ^ (8 * n)
      else - (2 ^ (8 * n - 1)) \<le> sint i \<and> sint i < 2 ^ (8 * n - 1))"

definition little_endian :: "nat \<Rightarrow> 64 word \<Rightarrow> byte list" where
  "little_endian n i = map (\<lambda>k. ucast (drop_bit (8 * k) i)) [0..<n]"

definition PutIntOfLength :: "64 word \<Rightarrow> bool \<Rightarrow> byte list" where
  "PutIntOfLength i isUnsigned =
     little_endian (case List.find (int_fits isUnsigned i) [1..<8] of Some n \<Rightarrow> n | None \<Rightarrow> 8) i"

subsection \<open>Slices (slice.hh)\<close>

text \<open>A slice is a pointer and a length. The pointer is modelled by the bytes it points
  to; \<open>None\<close> is the null pointer.\<close>

record slice =
  buf :: "byte list option"
  size_of :: nat

definition slice_of :: "byte list \<Rightarrow> slice" where
  "slice_of bs = \<lparr>buf = Some bs, size_of = length bs\<rparr>"

text \<open>Modelled from the spec: \<^verbatim>\<open>slice::compare\<close> (section 4.E, sortDict: unsigned
  byte-lexicographic comparison, a proper prefix first).\<close>

fun compare :: "byte list \<Rightarrow> byte list \<Rightarrow> int" where
  "compare [] [] = 0"
| "compare [] (y # ys) = - 1"
| "compare (x # xs) [] = 1"
| "compare (x # xs) (y # ys) = (if x < y then - 1 else if y < x then 1 else compare xs ys)"

text \<open>The C library's \<^verbatim>\<open>qsort\<close>: a sort by the comparison function. Where two elements
  compare equal, C leaves their order open; the model keeps the earlier one first.\<close>

fun qsort_insert :: "('a \<Rightarrow> 'a \<Rightarrow> int) \<Rightarrow> 'a \<Rightarrow> 'a list \<Rightarrow> 'a list" where
  "qsort_insert cmp x [] = [x]"
| "qsort_insert cmp x (y # ys) = (if cmp x y \<le> 0 then x # y # ys else y # qsort_insert cmp x ys)"

definition qsort :: "('a \<Rightarrow> 'a \<Rightarrow> int) \<Rightarrow> 'a list \<Rightarrow> 'a list" where
  "qsort cmp xs = foldr (qsort_insert cmp) xs []"

subsection \<open>The encoder's state (Encoder.hh)\<close>

text \<open>
  A frame of the stack, \<^verbatim>\<open>valueArray\<close>: a vector of value words (\<open>elems\<close>; pointers are
  held as wide words with absolute stream positions until the frame is closed) and the
  fields \<^verbatim>\<open>tag\<close>, \<^verbatim>\<open>wide\<close> and \<^verbatim>\<open>keys\<close>.
\<close>

record valueArray =
  elems :: "value_t list"
  tag :: tags
  wide :: bool
  keys :: "slice list"

text \<open>Modelled from the spec: \<^verbatim>\<open>valueArray::reset\<close> of Encoder.hh (section 3.3: a frame
  starts with its tag, narrow, with no keys). The vector itself is emptied by
  \<^verbatim>\<open>clear\<close>, which \<^verbatim>\<open>endCollection\<close> and \<^verbatim>\<open>end\<close> call before a frame can be reused.\<close>

definition reset_frame :: "tags \<Rightarrow> valueArray \<Rightarrow> valueArray" where
  "reset_frame t f = f\<lparr>tag := t, wide := False, keys := []\<rparr>"

definition new_frame :: valueArray where
  "new_frame = \<lparr>elems = [], tag = kSpecialTag, wide = False, keys = []\<rparr>"

text \<open>Modelled from the spec: an entry of the string table, \<^verbatim>\<open>StringTable::info\<close>
  (section 3.2).\<close>

record info =
  offset :: nat
  usedAsKey :: bool

text \<open>
  The encoder. \<open>out\<close> is the writer: the bytes written so far. \<open>strings\<close> is the string
  table, modelled from the spec (section 4.C) as an association list from the bytes of a
  string to its entry: \<^verbatim>\<open>find\<close> is \<open>map_of\<close>, \<^verbatim>\<open>addAt\<close> adds a pair. The pointer
  \<^verbatim>\<open>_items\<close> is not a field: the constructor, \<^verbatim>\<open>push\<close>, \<^verbatim>\<open>endCollection\<close> and
  \<^verbatim>\<open>end\<close> keep it equal to \<^verbatim>\<open>&_stack[_stackDepth - 1]\<close>, and null when \<^verbatim>\<open>_stackDepth\<close>
  is 0, so it is read off \<open>stackDepth\<close> (\<open>cur\<close> below).
\<close>

record encoder =
  out :: "byte list"
  stack :: "valueArray list"
  stackDepth :: nat
  strings :: "(byte list \<times> info) list"
  uniqueStrings :: bool
  sortKeys :: bool
  writingKey :: bool
  blockedOnKey :: bool

definition cur :: "encoder \<Rightarrow> valueArray option" where
  "cur e = (if 0 < stackDepth e \<and> stackDepth e \<le> length (stack e)
            then Some (stack e ! (stackDepth e - 1)) else None)"

definition upd_cur :: "(valueArray \<Rightarrow> valueArray) \<Rightarrow> encoder \<Rightarrow> encoder" where
  "upd_cur g e = e\<lparr>stack := (stack e)[stackDepth e - 1 := g (stack e ! (stackDepth e - 1))]\<rparr>"

definition push :: "tags \<Rightarrow> nat \<Rightarrow> encoder \<Rightarrow> encoder" where
  "push t reserve e =
     (let st = (if stackDepth e \<ge> length (stack e) then stack e @ [new_frame] else stack e)
      in e\<lparr>stack := st[stackDepth e := reset_frame t (st ! stackDepth e)],
            stackDepth := stackDepth e + 1\<rparr>)"

definition Encoder :: "byte list \<Rightarrow> encoder" where
  "Encoder w =
     push kSpecialTag 1
       \<lparr>out = w, stack = [], stackDepth = 0, strings = [], uniqueStrings = True,
        sortKeys = True, writingKey = False, blockedOnKey = False\<rparr>"

text \<open>\<^verbatim>\<open>nextWritePos\<close>: the position of the next write, after padding to an even one.\<close>

definition nextWritePos :: "encoder \<Rightarrow> nat \<times> encoder" where
  "nextWritePos e =
     (let pos = length (out e)
      in if odd pos then (pos + 1, e\<lparr>out := out e @ [0]\<rparr>) else (pos, e))"

subsection \<open>Writing\<close>

definition addItem :: "value_t \<Rightarrow> encoder \<Rightarrow> error + encoder" where
  "addItem v e =
     (if blockedOnKey e then Inl NeedKey
      else case cur e of
        None \<Rightarrow> Inl NullDeref
      | Some f \<Rightarrow>
          (let e1 = (if writingKey e then e\<lparr>writingKey := False\<rparr>
                     else if tag f = kDictTag then e\<lparr>writingKey := True, blockedOnKey := True\<rparr>
                     else e)
           in Inr (upd_cur (\<lambda>f. f\<lparr>elems := elems f @ [v]\<rparr>) e1)))"

definition writePointer :: "nat \<Rightarrow> encoder \<Rightarrow> error + encoder" where
  "writePointer p e = addItem (value_pointer p kWide) e"

text \<open>\<^verbatim>\<open>writeValue(tag, buf, size, canInline)\<close>; the list \<open>b\<close> is \<^verbatim>\<open>buf[0..size)\<close>, and
  \<open>set_tag\<close> is its first statement, \<^verbatim>\<open>buf[0] |= tag << 4\<close>.\<close>

definition set_tag :: "tags \<Rightarrow> byte list \<Rightarrow> byte list" where
  "set_tag t b = (case b of [] \<Rightarrow> [] | x # xs \<Rightarrow> (x OR push_bit 4 (tag_code t)) # xs)"

definition writeValue :: "tags \<Rightarrow> byte list \<Rightarrow> bool \<Rightarrow> encoder \<Rightarrow> error + encoder" where
  "writeValue t b canInline e =
     (let b' = set_tag t b
      in if canInline \<and> length b \<le> 4 then
           (let p = b' @ replicate (4 - length b) 0
            in bind_res (addItem (Value (p ! 0) (p ! 1) (p ! 2) (p ! 3)) e)
                 (\<lambda>e1. Inr (if length b > 2 then upd_cur (\<lambda>f. f\<lparr>wide := True\<rparr>) e1 else e1)))
         else
           (case nextWritePos e of (pos, e1) \<Rightarrow>
              bind_res (writePointer pos e1) (\<lambda>e2. Inr (e2\<lparr>out := out e2 @ b'\<rparr>))))"

definition writeNull :: "encoder \<Rightarrow> error + encoder" where
  "writeNull e = addItem (value_inline kSpecialTag kSpecialValueNull 0) e"

definition writeBool :: "bool \<Rightarrow> encoder \<Rightarrow> error + encoder" where
  "writeBool b e =
     addItem (value_inline kSpecialTag (if b then kSpecialValueTrue else kSpecialValueFalse) 0) e"

text \<open>\<^verbatim>\<open>writeInt(uint64_t i, bool isSmall, bool isUnsigned)\<close>. The last argument of
  \<^verbatim>\<open>writeValue\<close> is left out in the source; its default is declared in Encoder.hh and
  modelled from the spec (section 4.E: \<^verbatim>\<open>canInline=true\<close>).\<close>

definition writeInt :: "64 word \<Rightarrow> bool \<Rightarrow> bool \<Rightarrow> encoder \<Rightarrow> error + encoder" where
  "writeInt i isSmall isUnsigned e =
     (if isSmall then
        addItem (value_inline kShortIntTag (ucast (drop_bit 8 i AND 0x0F)) (ucast (i AND 0xFF))) e
      else
        (let bs = PutIntOfLength i isUnsigned;
             b0 = (of_nat (length bs) - 1 :: byte);
             b = (if isUnsigned then b0 OR 0x08 else b0) # bs;
             b = (if odd (length b) then b @ [0] else b)
         in writeValue kIntTag b True e))"

text \<open>\<^verbatim>\<open>writeInt(int64_t i)\<close> and \<^verbatim>\<open>writeUInt(uint64_t i)\<close>.\<close>

definition writeInt64 :: "64 word \<Rightarrow> encoder \<Rightarrow> error + encoder" where
  "writeInt64 i e = writeInt i (i <s 2048 \<and> - 2048 \<le>s i) False e"

definition writeUInt :: "64 word \<Rightarrow> encoder \<Rightarrow> error + encoder" where
  "writeUInt i e = writeInt i (i < 2048) True e"

subsection \<open>Strings and data\<close>

text \<open>\<^verbatim>\<open>writeData(tag, s)\<close>: \<open>s\<close> is the bytes of the slice given; the result is the slice
  returned, with a null pointer when the bytes went inline.\<close>

definition writeData :: "tags \<Rightarrow> byte list \<Rightarrow> encoder \<Rightarrow> error + slice \<times> encoder" where
  "writeData t s e =
     (let b0 = (of_nat (min (length s) 0xF) :: byte)
      in if length s < kNarrow then
           bind_res (writeValue t (b0 # s) True e)
             (\<lambda>e1. Inr (\<lparr>buf = None, size_of = length s\<rparr>, e1))
         else
           (let b = [b0] @ (if length s \<ge> 0x0F then PutUVarInt (length s) else [])
                     @ (if length s = 0 then [0] else [])
            in bind_res (writeValue t b False e)
                 (\<lambda>e1. Inr (slice_of s, e1\<lparr>out := out e1 @ s\<rparr>))))"

text \<open>\<^verbatim>\<open>_writeString(s, asKey)\<close> (an identifier cannot start with an underscore here). The offset of a new entry is \<^verbatim>\<open>(uint32_t)nextWritePos()\<close>.\<close>

definition writeString_impl :: "byte list \<Rightarrow> bool \<Rightarrow> encoder \<Rightarrow> error + slice \<times> encoder" where
  "writeString_impl s asKey e =
     (if uniqueStrings e \<and> length s \<ge> kNarrow \<and> length s \<le> kMaxSharedStringSize then
        (case map_of (strings e) s of
           Some entry \<Rightarrow>
             bind_res (writePointer (offset entry) e)
               (\<lambda>e1. Inr (slice_of s,
                  if asKey
                  then e1\<lparr>strings := map (\<lambda>(k, i). if k = s then (k, i\<lparr>usedAsKey := True\<rparr>) else (k, i))
                                         (strings e1)\<rparr>
                  else e1))
         | None \<Rightarrow>
             (case nextWritePos e of (pos, e1) \<Rightarrow>
                bind_res (writeData kStringTag s e1)
                  (\<lambda>(sl, e2). Inr (sl,
                     case buf sl of
                       Some _ \<Rightarrow> e2\<lparr>strings := (s, \<lparr>offset = pos mod 2 ^ 32, usedAsKey = asKey\<rparr>)
                                                  # strings e2\<rparr>
                     | None \<Rightarrow> e2))))
      else writeData kStringTag s e)"

definition writeString :: "byte list \<Rightarrow> encoder \<Rightarrow> error + encoder" where
  "writeString s e = bind_res (writeString_impl s False e) (\<lambda>(sl, e1). Inr e1)"

text \<open>\<^verbatim>\<open>writeData(slice s)\<close>, the public one.\<close>

definition writeBinary :: "byte list \<Rightarrow> encoder \<Rightarrow> error + encoder" where
  "writeBinary s e = bind_res (writeData kBinaryTag s e) (\<lambda>(sl, e1). Inr e1)"

definition writeKey :: "byte list \<Rightarrow> encoder \<Rightarrow> error + encoder" where
  "writeKey s e =
     (if \<not> blockedOnKey e then
        (case cur e of None \<Rightarrow> Inl NullDeref | Some f \<Rightarrow> Inl NoKeyHere)
      else
        bind_res (writeString_impl s True (e\<lparr>blockedOnKey := False\<rparr>))
          (\<lambda>(sl, e1). Inr (if sortKeys e1 then upd_cur (\<lambda>f. f\<lparr>keys := keys f @ [sl]\<rparr>) e1 else e1)))"

subsection \<open>Pointers\<close>

text \<open>\<^verbatim>\<open>size_t\<close> subtraction wraps around.\<close>

definition size_t_sub :: "nat \<Rightarrow> nat \<Rightarrow> nat" where
  "size_t_sub a b = (if b \<le> a then a - b else a + 2 ^ 64 - b)"

fun checkPointerWidths_loop :: "nat \<Rightarrow> value_t list \<Rightarrow> bool" where
  "checkPointerWidths_loop base [] = False"
| "checkPointerWidths_loop base (v # vs) =
     (if isPointer v \<and> size_t_sub base (pointerValue True v) \<ge> 0x10000 then True
      else checkPointerWidths_loop (base + kNarrow) vs)"

definition checkPointerWidths :: "valueArray \<Rightarrow> encoder \<Rightarrow> valueArray \<times> encoder" where
  "checkPointerWidths f e =
     (if \<not> wide f then
        (case nextWritePos e of (base, e1) \<Rightarrow>
           (if checkPointerWidths_loop base (elems f) then f\<lparr>wide := True\<rparr> else f, e1))
      else (f, e))"

fun fixPointers_loop :: "nat \<Rightarrow> nat \<Rightarrow> value_t list \<Rightarrow> error + value_t list" where
  "fixPointers_loop base width [] = Inr []"
| "fixPointers_loop base width (v # vs) =
     (if isPointer v then
        (let pos = pointerValue True v
         in if \<not> pos < base then Inl AssertionFailed
            else bind_res (fixPointers_loop (base + width) width vs)
                   (\<lambda>r. Inr (value_pointer (base - pos) width # r)))
      else bind_res (fixPointers_loop (base + width) width vs) (\<lambda>r. Inr (v # r)))"

definition fixPointers :: "valueArray \<Rightarrow> encoder \<Rightarrow> error + valueArray \<times> encoder" where
  "fixPointers f e =
     (case nextWritePos e of (base, e1) \<Rightarrow>
        bind_res (fixPointers_loop base (if wide f then kWide else kNarrow) (elems f))
          (\<lambda>vs. Inr (f\<lparr>elems := vs\<rparr>, e1)))"

subsection \<open>Arrays and dictionaries\<close>

definition beginArray :: "nat \<Rightarrow> encoder \<Rightarrow> encoder" where
  "beginArray reserve e = push kArrayTag reserve e"

definition beginDictionary :: "nat \<Rightarrow> encoder \<Rightarrow> encoder" where
  "beginDictionary reserve e = (push kDictTag (2 * reserve) e)\<lparr>writingKey := True, blockedOnKey := True\<rparr>"

definition slice_bytes :: "slice \<Rightarrow> byte list" where
  "slice_bytes sl = (case buf sl of Some bs \<Rightarrow> bs | None \<Rightarrow> [])"

text \<open>\<^verbatim>\<open>compareKeysByIndex\<close>, on indices into the key vector. Its assertion cannot fail:
  \<^verbatim>\<open>sortDict\<close> has given every key a pointer before it sorts.\<close>

definition compareKeysByIndex :: "slice list \<Rightarrow> nat \<Rightarrow> nat \<Rightarrow> int" where
  "compareKeysByIndex ks a b = compare (slice_bytes (ks ! a)) (slice_bytes (ks ! b))"

text \<open>
  The first loop of \<^verbatim>\<open>sortDict\<close>: a key without a pointer is an inline string, and its
  bytes are read in the item array, from the second byte of item \<open>2 * i\<close>.
\<close>

definition resolve_keys :: "valueArray \<Rightarrow> slice list" where
  "resolve_keys f =
     map (\<lambda>i. let k = keys f ! i
              in case buf k of
                   None \<Rightarrow> k\<lparr>buf := Some (take (size_of k)
                                          (drop (4 * (2 * i) + 1) (concat (map value_bytes (elems f)))))\<rparr>
                 | Some _ \<Rightarrow> k)
         [0..<length (keys f)]"

text \<open>\<^verbatim>\<open>sortDict\<close>. It reads the first \<open>2 * n\<close> items; a shorter vector is read out of
  range.\<close>

definition sortDict :: "valueArray \<Rightarrow> error + valueArray" where
  "sortDict f =
     (let n = length (keys f)
      in if n < 2 then Inr f
         else if length (elems f) < 2 * n then Inl NullDeref
         else
           (let ks = resolve_keys f;
                indices = qsort (compareKeysByIndex ks) [0..<n];
                old = take (2 * n) (elems f)
            in Inr (f\<lparr>keys := ks,
                      elems := concat (map (\<lambda>j. [old ! (2 * j), old ! (2 * j + 1)]) indices)
                               @ drop (2 * n) (elems f)\<rparr>)))"

text \<open>The header that \<^verbatim>\<open>endCollection\<close> builds in \<^verbatim>\<open>buf\<close>, before the tag is added.\<close>

definition collection_header :: "nat \<Rightarrow> bool \<Rightarrow> byte list" where
  "collection_header count isWide =
     (let inlineCount = min count 0x07FF;
          b0 = (of_nat (inlineCount div 256) :: byte);
          b1 = (of_nat (inlineCount mod 256) :: byte);
          ext = (if count \<ge> 0x0FFF
                 then (let v = PutUVarInt count in if odd (2 + length v) then v @ [0] else v)
                 else [])
      in (if isWide then b0 OR 0x08 else b0) # b1 # ext)"

definition narrow_bytes :: "value_t \<Rightarrow> byte list" where
  "narrow_bytes v = [byte0 v, byte1 v]"

definition endCollection :: "tags \<Rightarrow> encoder \<Rightarrow> error + encoder" where
  "endCollection t e =
     (case cur e of
        None \<Rightarrow> Inl NullDeref
      | Some f \<Rightarrow>
          if tag f \<noteq> t then Inl Unbalanced
          else
            (let i = stackDepth e - 1;
                 e1 = e\<lparr>stackDepth := stackDepth e - 1, writingKey := False, blockedOnKey := False\<rparr>
             in bind_res (if sortKeys e1 \<and> t = kDictTag then sortDict f else Inr f)
                  (\<lambda>f1. case checkPointerWidths f1 e1 of (f2, e2) \<Rightarrow>
                     (let count = length (elems f2) mod 2 ^ 32;
                          count = (if tag f2 = kDictTag then count div 2 else count)
                      in bind_res (writeValue (tag f2) (collection_header count (wide f2)) (count = 0) e2)
                           (\<lambda>e3. bind_res (fixPointers f2 e3)
                              (\<lambda>(f3, e4).
                                 (let e5 = (if count > 0
                                            then e4\<lparr>out := out e4 @ concat (map (if wide f3 then value_bytes
                                                                                  else narrow_bytes) (elems f3))\<rparr>
                                            else e4)
                                  in Inr (e5\<lparr>stack := (stack e5)[i := f3\<lparr>elems := []\<rparr>]\<rparr>))))))))"

definition endArray :: "encoder \<Rightarrow> error + encoder" where
  "endArray e = endCollection kArrayTag e"

definition endDictionary :: "encoder \<Rightarrow> error + encoder" where
  "endDictionary e = (if \<not> writingKey e then Inl Unbalanced else endCollection kDictTag e)"

text \<open>\<^verbatim>\<open>Encoder::end\<close>.\<close>

definition end_encoder :: "encoder \<Rightarrow> error + encoder" where
  "end_encoder e =
     (case cur e of
        None \<Rightarrow> (if stackDepth e = 0 then Inr e else Inl NullDeref)
      | Some f \<Rightarrow>
          if stackDepth e > 1 then Inl Unbalanced
          else if length (elems f) > 1 then Inl Unbalanced
          else if length (elems f) > 0 then
            bind_res (fixPointers f e)
              (\<lambda>(f1, e1).
                 (let root = elems f1 ! 0;
                      e2 = (if wide f1
                            then e1\<lparr>out := out e1 @ value_bytes root
                                                  @ narrow_bytes (value_pointer 4 kNarrow)\<rparr>
                            else e1\<lparr>out := out e1 @ narrow_bytes root\<rparr>)
                  in Inr (e2\<lparr>stack := (stack e2)[stackDepth e - 1 := f1\<lparr>elems := []\<rparr>],
                            stackDepth := 0\<rparr>)))
          else Inr (e\<lparr>stackDepth := 0\<rparr>))"

subsection \<open>The hash array mapped trie (HAMTree.cc)\<close>

type_synonym hash_t = "32 word"
type_synonym bitmap_t = "64 word"

definition kBitShift :: nat where "kBitShift = 6"
definition kMaxChildren :: nat where "kMaxChildren = 2 ^ kBitShift"

text \<open>
  \<^verbatim>\<open>LeafNode\<close> holds hash, key and value. \<^verbatim>\<open>InteriorNode\<close> holds \<^verbatim>\<open>_bitmap\<close>,
  \<^verbatim>\<open>_capacity\<close> and the array \<^verbatim>\<open>_children\<close>, of which the list is the packed part: the
  first \<^verbatim>\<open>childCount()\<close> entries. A method of \<^verbatim>\<open>InteriorNode\<close> applied to a leaf is an
  unchecked downcast gone wrong (\<open>BadCast\<close>); the source tests \<^verbatim>\<open>isLeaf\<close> before each cast.
\<close>

datatype ('k, 'v) node =
    LeafNode hash_t 'k 'v
  | InteriorNode bitmap_t nat "('k, 'v) node list"

text \<open>\<^verbatim>\<open>std::__pop_count\<close>: the number of bits set.\<close>

definition pop_count :: "bitmap_t \<Rightarrow> nat" where
  "pop_count w = length (filter (bit w) [0..<64])"

definition childCount :: "bitmap_t \<Rightarrow> nat" where
  "childCount bm = pop_count bm"

definition childBitNumber :: "hash_t \<Rightarrow> nat \<Rightarrow> nat" where
  "childBitNumber hash shift = unat (drop_bit shift hash AND of_nat (kMaxChildren - 1))"

definition childIndexForBitNumber :: "bitmap_t \<Rightarrow> nat \<Rightarrow> nat" where
  "childIndexForBitNumber bm bitNo = pop_count (bm AND (push_bit bitNo 1 - 1))"

definition hasChild :: "bitmap_t \<Rightarrow> nat \<Rightarrow> bool" where
  "hasChild bm i = (bm AND push_bit i 1 \<noteq> 0)"

definition newInteriorNode :: "nat \<Rightarrow> ('k, 'v) node" where
  "newInteriorNode capacity = InteriorNode 0 capacity []"

text \<open>\<^verbatim>\<open>grow\<close>: a copy with one more slot; the node itself is deleted.\<close>

fun grow :: "('k, 'v) node \<Rightarrow> error + ('k, 'v) node" where
  "grow (InteriorNode bm cap cs) =
     (if \<not> cap < kMaxChildren then Inl AssertionFailed else Inr (InteriorNode bm (cap + 1) cs))"
| "grow (LeafNode h k v) = Inl BadCast"

text \<open>\<^verbatim>\<open>_addChild\<close> (an identifier cannot start with an underscore here): the
  \<^verbatim>\<open>memmove\<close> opens the slot \<open>childIndex\<close>; it needs that slot to be inside the array.\<close>

fun addChild_impl :: "('k, 'v) node \<Rightarrow> nat \<Rightarrow> nat \<Rightarrow> ('k, 'v) node \<Rightarrow> error + ('k, 'v) node" where
  "addChild_impl (InteriorNode bm cap cs) bitNo childIndex child =
     (if \<not> childIndex < cap \<or> \<not> childIndex \<le> length cs then Inl NullDeref
      else Inr (InteriorNode (bm OR push_bit bitNo 1) cap
                  (take childIndex cs @ child # drop childIndex cs)))"
| "addChild_impl (LeafNode h k v) bitNo childIndex child = Inl BadCast"

text \<open>\<^verbatim>\<open>addChild(bitNo, child)\<close>. The result is the node returned and whether it is a
  new one (\<^verbatim>\<open>grow\<close> was called), in which case the old one is gone.\<close>

fun addChild :: "('k, 'v) node \<Rightarrow> nat \<Rightarrow> ('k, 'v) node \<Rightarrow> error + ('k, 'v) node \<times> bool" where
  "addChild (InteriorNode bm cap cs) bitNo child =
     (let childIndex = childIndexForBitNumber bm bitNo
      in if childCount bm < cap
         then bind_res (addChild_impl (InteriorNode bm cap cs) bitNo childIndex child)
                (\<lambda>n. Inr (n, False))
         else bind_res (grow (InteriorNode bm cap cs))
                (\<lambda>g. bind_res (addChild_impl g bitNo childIndex child) (\<lambda>n. Inr (n, True))))"
| "addChild (LeafNode h k v) bitNo child = Inl BadCast"

fun removeChild :: "('k, 'v) node \<Rightarrow> nat \<Rightarrow> nat \<Rightarrow> error + ('k, 'v) node" where
  "removeChild (InteriorNode bm cap cs) bitNo childIndex =
     (if \<not> childIndex < cap then Inl AssertionFailed
      else Inr (InteriorNode (bm AND NOT (push_bit bitNo 1)) cap
                  (take childIndex cs @ drop (childIndex + 1) cs)))"
| "removeChild (LeafNode h k v) bitNo childIndex = Inl BadCast"

text \<open>\<^verbatim>\<open>find\<close>; the leaf found is given by its three fields. The names \<open>find\<close>,
  \<open>insert\<close> and \<open>remove\<close> are taken in HOL, so the three methods carry the suffix
  \<open>_node\<close>.\<close>

function find_node :: "('k, 'v) node \<Rightarrow> hash_t \<Rightarrow> error + (hash_t \<times> 'k \<times> 'v) option" where
  "find_node (InteriorNode bm cap cs) hash =
     (let bitNo = childBitNumber hash 0
      in if \<not> hasChild bm bitNo then Inr None
         else
           (let i = childIndexForBitNumber bm bitNo
            in if \<not> i < cap then Inl AssertionFailed
               else if \<not> i < length cs then Inl NullDeref
               else (case cs ! i of
                       LeafNode h k v \<Rightarrow> Inr (Some (h, k, v))
                     | InteriorNode bm' cap' cs' \<Rightarrow>
                         find_node (InteriorNode bm' cap' cs') (drop_bit kBitShift hash))))"
| "find_node (LeafNode h k v) hash = Inl BadCast"
  by pat_completeness auto
termination
proof (relation "measure (\<lambda>(n, h). size n)", goal_cases)
  case 1
  show ?case by simp
next
  case (2 bm cap cs hash bitNo i bm' cap' cs')
  then have "i < length cs" and child: "cs ! i = InteriorNode bm' cap' cs'" by simp_all
  then have "InteriorNode bm' cap' cs' \<in> set cs" by (metis nth_mem)
  then have "size (InteriorNode bm' cap' cs') \<le> size_list size cs"
    by (simp add: size_list_estimation')
  then show ?case by simp
qed

text \<open>\<^verbatim>\<open>itemCount\<close>; a leaf child counts 1.\<close>

function itemCount :: "('k, 'v) node \<Rightarrow> nat" where
  "itemCount (LeafNode h k v) = 1"
| "itemCount (InteriorNode bm cap cs) = sum_list (map itemCount (take (childCount bm) cs))"
  by pat_completeness auto
termination
proof (relation "measure size", goal_cases)
  case 1
  show ?case by simp
next
  case (2 bm cap cs x)
  then have "x \<in> set cs" by (meson in_set_takeD)
  then have "size x \<le> size_list size cs" by (simp add: size_list_estimation')
  then show ?case by simp
qed

text \<open>
  \<^verbatim>\<open>insert(target, shift)\<close>. The result is the node returned and whether it is a new
  one. Where the source drops the node returned by a call (the two calls on the fresh
  interior node), a new node there would leave the slot pointing at the deleted one.
\<close>

function insert_node :: "('k, 'v) node \<Rightarrow> hash_t \<times> 'k \<times> 'v \<Rightarrow> nat \<Rightarrow> error + ('k, 'v) node \<times> bool" where
  "insert_node (InteriorNode bm cap cs) (h, k, v) shift =
     (if \<not> shift + kBitShift < 32 then Inl AssertionFailed
      else
        (let bitNo = childBitNumber h shift
         in if \<not> hasChild bm bitNo then addChild (InteriorNode bm cap cs) bitNo (LeafNode h k v)
            else
              (let i = childIndexForBitNumber bm bitNo
               in if \<not> i < cap then Inl AssertionFailed
                  else if \<not> i < length cs then Inl NullDeref
                  else (case cs ! i of
                          LeafNode lh lk lv \<Rightarrow>
                            if lh = h \<and> lk = k
                            then Inr (InteriorNode bm cap (cs[i := LeafNode lh lk v]), False)
                            else
                              (let level = shift div kBitShift;
                                   node = newInteriorNode (2 + (if level < 1 then 1 else 0)
                                                             + (if level < 3 then 1 else 0));
                                   childBitNo = childBitNumber lh (shift + kBitShift)
                               in bind_res (addChild node childBitNo (LeafNode lh lk lv))
                                    (\<lambda>(node1, moved1).
                                       if moved1 then Inl DanglingNode
                                       else bind_res (insert_node node1 (h, k, v) (shift + kBitShift))
                                              (\<lambda>(node2, moved2).
                                                 if moved2 then Inl DanglingNode
                                                 else Inr (InteriorNode bm cap (cs[i := node2]), False))))
                        | InteriorNode bm' cap' cs' \<Rightarrow>
                            bind_res (insert_node (InteriorNode bm' cap' cs') (h, k, v) (shift + kBitShift))
                              (\<lambda>(node, moved). Inr (InteriorNode bm cap (cs[i := node]), False))))))"
| "insert_node (LeafNode lh lk lv) target shift = Inl BadCast"
  by pat_completeness auto
termination
  by (relation "measure (\<lambda>(n, t, shift). 32 - shift)") (auto simp: kBitShift_def)

text \<open>\<^verbatim>\<open>remove(target, shift)\<close>; the target is hash and key. The result is the boolean
  returned and the node after the call.\<close>

function remove_node :: "('k, 'v) node \<Rightarrow> hash_t \<times> 'k \<Rightarrow> nat \<Rightarrow> error + bool \<times> ('k, 'v) node" where
  "remove_node (InteriorNode bm cap cs) (h, k) shift =
     (if \<not> shift + kBitShift < 32 then Inl AssertionFailed
      else
        (let bitNo = childBitNumber h shift
         in if \<not> hasChild bm bitNo then Inr (False, InteriorNode bm cap cs)
            else
              (let childIndex = childIndexForBitNumber bm bitNo
               in if \<not> childIndex < length cs then Inl NullDeref
                  else (case cs ! childIndex of
                          LeafNode lh lk lv \<Rightarrow>
                            if lh = h \<and> lk = k
                            then bind_res (removeChild (InteriorNode bm cap cs) bitNo childIndex)
                                   (\<lambda>n. Inr (True, n))
                            else Inr (False, InteriorNode bm cap cs)
                        | InteriorNode bm' cap' cs' \<Rightarrow>
                            bind_res (remove_node (InteriorNode bm' cap' cs') (h, k) (shift + kBitShift))
                              (\<lambda>(removed, node).
                                 if \<not> removed then Inr (False, InteriorNode bm cap (cs[childIndex := node]))
                                 else (case node of
                                         InteriorNode nbm ncap ncs \<Rightarrow>
                                           if nbm = 0
                                           then bind_res (removeChild (InteriorNode bm cap cs) bitNo childIndex)
                                                  (\<lambda>n. Inr (True, n))
                                           else Inr (True, InteriorNode bm cap (cs[childIndex := node]))
                                       | LeafNode _ _ _ \<Rightarrow> Inl BadCast))))))"
| "remove_node (LeafNode lh lk lv) target shift = Inl BadCast"
  by pat_completeness auto
termination
  by (relation "measure (\<lambda>(n, t, shift). 32 - shift)") (auto simp: kBitShift_def)

text \<open>
  \<^verbatim>\<open>HAMTree\<close>: the pointer \<^verbatim>\<open>_root\<close>, null at first. \<^verbatim>\<open>Key::hash\<close> is declared in
  HAMTree.hh, which is not at hand: the hash function is the parameter \<open>hash\<close>. \<^verbatim>\<open>Val\<close> is
  opaque; the empty \<^verbatim>\<open>Val\<close> that \<^verbatim>\<open>get\<close> returns for a miss is \<open>None\<close>.
\<close>

type_synonym ('k, 'v) HAMTree = "('k, 'v) node option"

definition HAMTree_count :: "('k, 'v) HAMTree \<Rightarrow> nat" where
  "HAMTree_count t = (case t of None \<Rightarrow> 0 | Some r \<Rightarrow> itemCount r)"

definition HAMTree_get :: "('k \<Rightarrow> hash_t) \<Rightarrow> ('k, 'v) HAMTree \<Rightarrow> 'k \<Rightarrow> error + 'v option" where
  "HAMTree_get hash t key =
     (case t of
        None \<Rightarrow> Inr None
      | Some r \<Rightarrow>
          bind_res (find_node r (hash key))
            (\<lambda>leaf. case leaf of
                      None \<Rightarrow> Inr None
                    | Some (h, k, v) \<Rightarrow> if h = hash key \<and> k = key then Inr (Some v) else Inr None))"

text \<open>\<^verbatim>\<open>HAMTree::insert\<close> drops the node that \<^verbatim>\<open>insert\<close> returns.\<close>

definition HAMTree_insert :: "('k \<Rightarrow> hash_t) \<Rightarrow> ('k, 'v) HAMTree \<Rightarrow> 'k \<Rightarrow> 'v \<Rightarrow> error + ('k, 'v) HAMTree" where
  "HAMTree_insert hash t key val =
     (let r = (case t of None \<Rightarrow> newInteriorNode kMaxChildren | Some r \<Rightarrow> r)
      in bind_res (insert_node r (hash key, key, val) 0)
           (\<lambda>(r', moved). if moved then Inl DanglingNode else Inr (Some r')))"

definition HAMTree_remove :: "('k \<Rightarrow> hash_t) \<Rightarrow> ('k, 'v) HAMTree \<Rightarrow> 'k \<Rightarrow> error + bool \<times> ('k, 'v) HAMTree" where
  "HAMTree_remove hash t key =
     (case t of
        None \<Rightarrow> Inr (False, None)
      | Some r \<Rightarrow> bind_res (remove_node r (hash key, key) 0) (\<lambda>(removed, r'). Inr (removed, Some r')))"

subsection \<open>Sequences of calls\<close>

text \<open>A caller's use of the encoder or of the tree is a list of calls, run from left to
  right until one fails.\<close>

datatype call =
    WriteNull | WriteBool bool | WriteInt "64 word" | WriteUInt "64 word"
  | WriteString "byte list" | WriteData "byte list" | WriteKey "byte list"
  | BeginArray nat | BeginDictionary nat | EndArray | EndDictionary | End

fun do_call :: "call \<Rightarrow> encoder \<Rightarrow> error + encoder" where
  "do_call WriteNull e = writeNull e"
| "do_call (WriteBool b) e = writeBool b e"
| "do_call (WriteInt i) e = writeInt64 i e"
| "do_call (WriteUInt i) e = writeUInt i e"
| "do_call (WriteString s) e = writeString s e"
| "do_call (WriteData s) e = writeBinary s e"
| "do_call (WriteKey s) e = writeKey s e"
| "do_call (BeginArray n) e = Inr (beginArray n e)"
| "do_call (BeginDictionary n) e = Inr (beginDictionary n e)"
| "do_call EndArray e = endArray e"
| "do_call EndDictionary e = endDictionary e"
| "do_call End e = end_encoder e"

fun do_calls :: "call list \<Rightarrow> encoder \<Rightarrow> error + encoder" where
  "do_calls [] e = Inr e"
| "do_calls (c # cs) e = bind_res (do_call c e) (do_calls cs)"

datatype ('k, 'v) tree_call = Insert 'k 'v | Remove 'k

fun do_tree_call :: "('k \<Rightarrow> hash_t) \<Rightarrow> ('k, 'v) tree_call \<Rightarrow> ('k, 'v) HAMTree \<Rightarrow> error + ('k, 'v) HAMTree" where
  "do_tree_call hash (Insert k v) t = HAMTree_insert hash t k v"
| "do_tree_call hash (Remove k) t = bind_res (HAMTree_remove hash t k) (\<lambda>(removed, t'). Inr t')"

fun do_tree_calls :: "('k \<Rightarrow> hash_t) \<Rightarrow> ('k, 'v) tree_call list \<Rightarrow> ('k, 'v) HAMTree \<Rightarrow> error + ('k, 'v) HAMTree" where
  "do_tree_calls hash [] t = Inr t"
| "do_tree_calls hash (c # cs) t = bind_res (do_tree_call hash c t) (do_tree_calls hash cs)"

subsection \<open>Notions used in the statements\<close>

text \<open>The offset that the string table holds for the bytes \<open>s\<close>, if any.\<close>

definition string_offset :: "encoder \<Rightarrow> byte list \<Rightarrow> nat option" where
  "string_offset e s = map_option offset (map_of (strings e) s)"

text \<open>The header that \<^verbatim>\<open>writeData\<close> builds for a payload of at least \<^verbatim>\<open>kNarrow\<close>
  bytes, with the tag that \<^verbatim>\<open>writeValue\<close> adds.\<close>

definition data_header :: "tags \<Rightarrow> byte list \<Rightarrow> byte list" where
  "data_header t s =
     set_tag t ([of_nat (min (length s) 0xF)] @ (if length s \<ge> 0x0F then PutUVarInt (length s) else [])
                @ (if length s = 0 then [0] else []))"

text \<open>The slices that an interior node has a child for, in ascending order, and the
  child of a slice: the array \<^verbatim>\<open>_children\<close> read through \<^verbatim>\<open>_bitmap\<close>.\<close>

definition slots :: "bitmap_t \<Rightarrow> nat list" where
  "slots bm = filter (bit bm) [0..<64]"

definition child_at :: "bitmap_t \<Rightarrow> ('k, 'v) node list \<Rightarrow> nat \<Rightarrow> ('k, 'v) node option" where
  "child_at bm cs = map_of (zip (slots bm) cs)"

text \<open>The leaves below a node.\<close>

fun leaves :: "('k, 'v) node \<Rightarrow> (hash_t \<times> 'k \<times> 'v) list" where
  "leaves (LeafNode h k v) = [(h, k, v)]"
| "leaves (InteriorNode bm cap cs) = concat (map leaves cs)"

text \<open>
  The shape of a tree whose root works at \<open>shift\<close>: every interior node holds as many
  children as its bitmap has bits, within its capacity, which is at most
  \<^verbatim>\<open>kMaxChildren\<close>; its shift is a multiple of \<^verbatim>\<open>kBitShift\<close> that passes the assertion
  of \<^verbatim>\<open>insert\<close> and \<^verbatim>\<open>remove\<close>; the leaves below the child of a slice have that slice
  in their hash; and an interior node that is a child is not empty.
\<close>

function hamt_inv :: "nat \<Rightarrow> ('k, 'v) node \<Rightarrow> bool" where
  "hamt_inv shift (LeafNode h k v) = True"
| "hamt_inv shift (InteriorNode bm cap cs) =
     (length cs = pop_count bm \<and> length cs \<le> cap \<and> cap \<le> kMaxChildren
      \<and> shift + kBitShift < 32 \<and> kBitShift dvd shift
      \<and> (\<forall>i < length cs.
            (\<forall>l \<in> set (leaves (cs ! i)). childBitNumber (fst l) shift = slots bm ! i)
            \<and> (case cs ! i of InteriorNode bm' cap' cs' \<Rightarrow> bm' \<noteq> 0 | LeafNode h k v \<Rightarrow> True)
            \<and> hamt_inv (shift + kBitShift) (cs ! i)))"
  by pat_completeness auto
termination
proof (relation "measure (\<lambda>(shift, n). size n)", goal_cases)
  case 1
  show ?case by simp
next
  case (2 shift bm cap cs i)
  then have "cs ! i \<in> set cs" by simp
  then have "size (cs ! i) \<le> size_list size cs" by (simp add: size_list_estimation')
  then show ?case by simp
qed

text \<open>Every interior node below the given one holds at least \<open>m\<close> children.\<close>

fun min_children :: "nat \<Rightarrow> ('k, 'v) node \<Rightarrow> bool" where
  "min_children m (LeafNode h k v) = True"
| "min_children m (InteriorNode bm cap cs) =
     (\<forall>c \<in> set cs. (case c of InteriorNode bm' cap' cs' \<Rightarrow> m \<le> childCount bm' \<and> m \<le> length cs'
                             | LeafNode h k v \<Rightarrow> True)
                    \<and> min_children m c)"

text \<open>What \<^verbatim>\<open>HAMTree::get\<close> does below the root: \<^verbatim>\<open>find\<close> with the hash shifted, then
  the comparison of hash and key.\<close>

definition lookup :: "('k, 'v) node \<Rightarrow> nat \<Rightarrow> hash_t \<Rightarrow> 'k \<Rightarrow> error + 'v option" where
  "lookup n shift h k =
     bind_res (find_node n (drop_bit shift h))
       (\<lambda>leaf. case leaf of
                 None \<Rightarrow> Inr None
               | Some (h', k', v) \<Rightarrow> if h' = h \<and> k' = k then Inr (Some v) else Inr None)"

text \<open>Two hashes agree from bit \<open>shift\<close> up to bit 29, the bits that the five levels
  of the tree still have to look at.\<close>

definition agree :: "nat \<Rightarrow> hash_t \<Rightarrow> hash_t \<Rightarrow> bool" where
  "agree shift h h' = (drop_bit shift (take_bit 30 h) = drop_bit shift (take_bit 30 h'))"

text \<open>The capacity that \<^verbatim>\<open>insert\<close> gives to the interior node it creates below a node
  that works at \<open>shift\<close>.\<close>

definition start_capacity :: "nat \<Rightarrow> nat" where
  "start_capacity shift =
     2 + (if shift div kBitShift < 1 then 1 else 0) + (if shift div kBitShift < 3 then 1 else 0)"

text \<open>The root that \<^verbatim>\<open>HAMTree::insert\<close> works on: it creates one when there is none.\<close>

definition root_node :: "('k, 'v) HAMTree \<Rightarrow> ('k, 'v) node" where
  "root_node t = (case t of None \<Rightarrow> newInteriorNode kMaxChildren | Some r \<Rightarrow> r)"

text \<open>A root node holds exactly the entries of a finite map: it is well shaped, every leaf
  carries the hash of its key, \<^verbatim>\<open>get\<close> reads the map and \<^verbatim>\<open>count\<close> its size.\<close>

definition represents :: "('k \<Rightarrow> hash_t) \<Rightarrow> ('k, 'v) node \<Rightarrow> ('k \<rightharpoonup> 'v) \<Rightarrow> bool" where
  "represents hash r m =
     ((\<exists>bm cs. r = InteriorNode bm kMaxChildren cs) \<and> hamt_inv 0 r
      \<and> (\<forall>l \<in> set (leaves r). fst l = hash (fst (snd l)))
      \<and> (\<forall>k. lookup r 0 (hash k) k = Inr (m k))
      \<and> finite (dom m) \<and> itemCount r = card (dom m))"

section \<open>Properties of the encoder\<close>

lemma Encoder_eq:
  "Encoder w =
     \<lparr>out = w, stack = [\<lparr>elems = [], tag = kSpecialTag, wide = False, keys = []\<rparr>],
      stackDepth = 1, strings = [], uniqueStrings = True, sortKeys = True,
      writingKey = False, blockedOnKey = False\<rparr>"
  by (simp add: Encoder_def push_def new_frame_def reset_frame_def)

lemma value_pointer_4: "value_pointer 4 kNarrow = Value 0x80 0x02 0 0"
  by (simp add: value_pointer_def kNarrow_def kWide_def)

lemma fixPointers_stackDepth:
  "fixPointers f e = Inr (f1, e1) \<Longrightarrow> stackDepth e1 = stackDepth e"
  by (auto simp: fixPointers_def nextWritePos_def bind_res_def Let_def split: sum.splits if_splits)

lemma end_encoder_stackDepth: "end_encoder e = Inr e' \<Longrightarrow> stackDepth e' = 0"
  unfolding end_encoder_def bind_res_def Let_def value_pointer_4
  by (auto split: option.splits if_splits sum.splits prod.splits)

text \<open>
  C10. \<^verbatim>\<open>end\<close> is idempotent: after a call of \<^verbatim>\<open>end\<close> that returned, a further call
  returns as well, without an error, and leaves the encoder, the bytes written among it,
  as it is.
\<close>

theorem end_idempotent: "end_encoder e = Inr e' \<Longrightarrow> end_encoder e' = Inr e'"
proof -
  assume "end_encoder e = Inr e'"
  then have "stackDepth e' = 0" by (rule end_encoder_stackDepth)
  then show ?thesis by (simp add: end_encoder_def cur_def)
qed

theorem end_idempotent_witness:
  "end_encoder (Encoder [7]) = Inr ((Encoder [7])\<lparr>stackDepth := 0\<rparr>)
   \<and> end_encoder ((Encoder [7])\<lparr>stackDepth := 0\<rparr>) = Inr ((Encoder [7])\<lparr>stackDepth := 0\<rparr>)
   \<and> out ((Encoder [7])\<lparr>stackDepth := 0\<rparr>) = [7]"
proof -
  have first: "end_encoder (Encoder [7]) = Inr ((Encoder [7])\<lparr>stackDepth := 0\<rparr>)"
    by (simp add: Encoder_eq end_encoder_def cur_def)
  from end_idempotent [OF first] first show ?thesis by (simp add: Encoder_eq)
qed

text \<open>
  C8, as the claim has it, fails: \<^verbatim>\<open>end\<close> on a new encoder does not produce the two
  bytes of a narrow null word.
\<close>

theorem empty_document_counterexample:
  "map_sum id out (end_encoder (Encoder []))
     \<noteq> Inr (narrow_bytes (value_inline kSpecialTag kSpecialValueNull 0))"
  by (simp add: Encoder_eq end_encoder_def cur_def narrow_bytes_def)

text \<open>
  C8, amended. \<^verbatim>\<open>end\<close> on an encoder on which nothing was written returns and writes
  no byte: the stream is what the writer held before, empty for a new writer.
\<close>

theorem empty_document:
  "end_encoder (Encoder w) = Inr ((Encoder w)\<lparr>stackDepth := 0\<rparr>)
   \<and> out ((Encoder w)\<lparr>stackDepth := 0\<rparr>) = w"
  by (simp add: Encoder_eq end_encoder_def cur_def)

text \<open>
  C7: the code at the failing input. A collection of 0x0800 elements gets the header of
  one of 0x07FF elements, whatever the width: the inline count is capped at 0x07FF and
  the varint with the full count only starts at 0x0FFF, so the header does not tell
  the two counts apart.
\<close>

theorem collection_header_not_injective:
  "collection_header 0x0800 isWide = collection_header 0x07FF isWide
   \<and> collection_header 0x0800 isWide = [if isWide then 0x0F else 0x07, 0xFF]"
  by (simp add: collection_header_def)

text \<open>
  C9: the code at the failing input. \<^verbatim>\<open>beginArray\<close> and \<^verbatim>\<open>beginDictionary\<close>, called
  in a dictionary that waits for a key, push a frame and raise nothing; closing the
  array then adds its word to the dictionary where the key belongs.
\<close>

theorem begin_without_key:
  "blockedOnKey (beginDictionary 0 (Encoder []))
   \<and> stackDepth (beginDictionary 0 (Encoder [])) = 2
   \<and> stackDepth (beginArray 0 (beginDictionary 0 (Encoder []))) = 3
   \<and> stackDepth (beginDictionary 0 (beginDictionary 0 (Encoder []))) = 3
   \<and> map_sum id (map elems \<circ> stack) (endArray (beginArray 0 (beginDictionary 0 (Encoder []))))
       = Inr [[], [Value 0x60 0 0 0], []]"
  by (simp add: Encoder_eq beginArray_def beginDictionary_def push_def new_frame_def
      reset_frame_def endArray_def endCollection_def cur_def bind_res_def checkPointerWidths_def
      nextWritePos_def collection_header_def writeValue_def addItem_def upd_cur_def set_tag_def
      fixPointers_def kNarrow_def kWide_def isPointer_def)

subsection \<open>Integers\<close>

lemma cur_upd_cur: "cur e = Some f \<Longrightarrow> cur (upd_cur g e) = Some (g f)"
  by (auto simp: cur_def upd_cur_def split: if_splits)

lemma cur_out_update [simp]: "cur (e\<lparr>out := x\<rparr>) = cur e"
  by (simp add: cur_def)

lemma out_upd_cur [simp]: "out (upd_cur g e) = out e"
  by (simp add: upd_cur_def)

lemma addItem_Inr:
  assumes "addItem v e = Inr e'"
  shows "\<exists>f. cur e = Some f \<and> cur e' = Some (f\<lparr>elems := elems f @ [v]\<rparr>) \<and> out e' = out e
           \<and> strings e' = strings e \<and> stackDepth e' = stackDepth e \<and> \<not> blockedOnKey e
           \<and> uniqueStrings e' = uniqueStrings e \<and> sortKeys e' = sortKeys e"
  using assms
  by (auto simp: addItem_def cur_def upd_cur_def Let_def split: if_splits option.splits)

lemma isPointer_bit: "isPointer v \<longleftrightarrow> bit (byte0 v) 7"
proof -
  have "(0x80 :: byte) = 2 ^ 7" by simp
  then show ?thesis unfolding isPointer_def by (metis and_exp_eq_0_iff_not_bit)
qed

lemma pointer_tag_nibble: "isPointer v \<Longrightarrow> drop_bit 4 (byte0 v) \<noteq> 0"
proof
  assume p: "isPointer v" and z: "drop_bit 4 (byte0 v) = 0"
  from p have "bit (drop_bit 4 (byte0 v)) 3" by (simp add: isPointer_bit bit_drop_bit_eq)
  with z show False by simp
qed

lemma value_pointer_isPointer: "isPointer (value_pointer p w)"
  by (simp add: value_pointer_def Let_def isPointer_bit bit_or_iff)

lemma isSmall_sint: "((i :: 64 word) <s 2048 \<and> - 2048 \<le>s i) \<longleftrightarrow> (- 2048 \<le> sint i \<and> sint i < 2048)"
  by (auto simp: word_sless_alt word_sle_eq)

lemma short_nibble: "drop_bit 4 (ucast ((x :: 64 word) AND 0x0F) :: byte) = 0"
proof -
  have "(0x0F :: 64 word) = mask 4" by (simp add: mask_eq_exp_minus_1)
  then have "x AND 0x0F = take_bit 4 x" by (simp add: take_bit_eq_mask)
  then show ?thesis
    by (simp add: bit_eq_iff bit_drop_bit_eq bit_ucast_iff bit_take_bit_iff)
qed

lemma length_PutIntOfLength:
  "length (PutIntOfLength i u) \<in> {1..8}"
  by (auto simp: PutIntOfLength_def little_endian_def split: option.splits dest!: find_Some_iff[THEN iffD1])

lemma int_size_nibble:
  assumes "n \<in> {1..8}"
  shows "drop_bit 4 ((of_nat n - 1 :: byte) OR push_bit 4 (tag_code kIntTag)) = 1"
proof -
  from assms obtain m where n: "n = Suc m" and m: "m < 8" by (cases n) auto
  from m have u: "unat (of_nat m :: byte) = m" by (simp add: unat_of_nat)
  have "unat (drop_bit 4 (of_nat m :: byte)) = drop_bit 4 (unat (of_nat m :: byte))"
    by (rule unat_drop_bit_eq)
  also have "\<dots> = m div 2 ^ 4" unfolding u by (rule drop_bit_eq_div)
  also have "\<dots> = 0" using m by simp
  finally have "drop_bit 4 (of_nat m :: byte) = 0"
    by (simp only: unat_eq_0)
  then show ?thesis unfolding n by simp
qed


lemma length_set_tag [simp]: "length (set_tag t b) = length b"
  by (simp add: set_tag_def split: list.splits)

lemma list4: "length p = 4 \<Longrightarrow> [p ! 0, p ! 1, p ! 2, p ! 3] = p"
  by (auto simp: list_eq_iff_nth_eq less_Suc_eq numeral_eq_Suc)

lemma writeValue_inline_Inr:
  assumes "writeValue t b True e = Inr e'" and "length b \<le> 4" and "cur e = Some f"
  shows "\<exists>v f'. cur e' = Some f' \<and> elems f' = elems f @ [v]
           \<and> value_bytes v = set_tag t b @ replicate (4 - length b) 0
           \<and> out e' = out e"
proof -
  let ?p = "set_tag t b @ replicate (4 - length b) 0"
  let ?v = "Value (?p ! 0) (?p ! 1) (?p ! 2) (?p ! 3)"
  from assms(1,2) obtain e1 where a: "addItem ?v e = Inr e1"
    and e': "e' = (if length b > 2 then upd_cur (\<lambda>f. f\<lparr>wide := True\<rparr>) e1 else e1)"
    by (auto simp: writeValue_def Let_def bind_res_def set_tag_def split: sum.splits)
  from addItem_Inr [OF a] assms(3) have c1: "cur e1 = Some (f\<lparr>elems := elems f @ [?v]\<rparr>)" and o1: "out e1 = out e"
    by auto
  from assms(2) have "length ?p = 4" by simp
  then have "value_bytes ?v = ?p" unfolding value_bytes_def value_t.sel by (rule list4)
  then show ?thesis using c1 o1 e' by (auto simp: cur_upd_cur)
qed

lemma writeValue_outline_Inr:
  assumes "writeValue t b c e = Inr e'" and "\<not> (c \<and> length b \<le> 4)" and "cur e = Some f"
  shows "\<exists>v. cur e' = Some (f\<lparr>elems := elems f @ [v]\<rparr>) \<and> isPointer v
           \<and> v = value_pointer (fst (nextWritePos e)) kWide
           \<and> out e' = out (snd (nextWritePos e)) @ set_tag t b
           \<and> strings e' = strings e \<and> uniqueStrings e' = uniqueStrings e"
proof -
  obtain pos e1 where n: "nextWritePos e = (pos, e1)" by (cases "nextWritePos e")
  from assms(1,2) n obtain e2 where w: "writePointer pos e1 = Inr e2"
    and e': "e' = e2\<lparr>out := out e2 @ set_tag t b\<rparr>"
    by (auto simp: writeValue_def Let_def bind_res_def set_tag_def split: sum.splits)
  define v where "v = value_pointer pos kWide"
  from w have a: "addItem v e1 = Inr e2" by (simp add: writePointer_def v_def)
  from n assms(3) have c1: "cur e1 = Some f"
    by (auto simp: nextWritePos_def Let_def cur_def split: if_splits)
  from n have s1: "strings e1 = strings e" "uniqueStrings e1 = uniqueStrings e"
    by (auto simp: nextWritePos_def Let_def split: if_splits)
  from addItem_Inr [OF a] c1 have c2: "cur e2 = Some (f\<lparr>elems := elems f @ [v]\<rparr>)" and o2: "out e2 = out e1"
    and s2: "strings e2 = strings e1" "uniqueStrings e2 = uniqueStrings e1"
    by auto
  from c2 e' have "cur e' = Some (f\<lparr>elems := elems f @ [v]\<rparr>)" by simp
  with o2 e' v_def n s1 s2 show ?thesis by (auto simp: value_pointer_isPointer)
qed

lemma addItem_ok:
  assumes "cur e = Some f" and "\<not> blockedOnKey e"
  shows "\<exists>e'. addItem v e = Inr e' \<and> cur e' = Some (f\<lparr>elems := elems f @ [v]\<rparr>) \<and> out e' = out e"
proof -
  from assms obtain e' where a: "addItem v e = Inr e'" by (auto simp: addItem_def Let_def)
  from addItem_Inr [OF a] assms(1) a show ?thesis by auto
qed

lemma writeValue_inline_ok:
  assumes "length b \<le> 4" and "cur e = Some f" and "\<not> blockedOnKey e"
  shows "\<exists>e' v. writeValue t b True e = Inr e'
           \<and> value_bytes v = set_tag t b @ replicate (4 - length b) 0
           \<and> cur e' = Some (f\<lparr>elems := elems f @ [v], wide := wide f \<or> 2 < length b\<rparr>)
           \<and> out e' = out e"
proof -
  let ?p = "set_tag t b @ replicate (4 - length b) 0"
  let ?v = "Value (?p ! 0) (?p ! 1) (?p ! 2) (?p ! 3)"
  from addItem_ok [OF assms(2,3), of ?v] obtain e1 where a: "addItem ?v e = Inr e1"
    and c1: "cur e1 = Some (f\<lparr>elems := elems f @ [?v]\<rparr>)" and o1: "out e1 = out e" by blast
  let ?e' = "if length b > 2 then upd_cur (\<lambda>f. f\<lparr>wide := True\<rparr>) e1 else e1"
  from a assms(1) have w: "writeValue t b True e = Inr ?e'"
    by (simp add: writeValue_def Let_def bind_res_def)
  from assms(1) have "length ?p = 4" by simp
  then have vb: "value_bytes ?v = ?p" unfolding value_bytes_def value_t.sel by (rule list4)
  have c': "cur ?e' = Some (f\<lparr>elems := elems f @ [?v], wide := wide f \<or> 2 < length b\<rparr>)"
    using c1 cur_upd_cur [OF c1, of "\<lambda>f. f\<lparr>wide := True\<rparr>"] by simp
  have "out ?e' = out e" using o1 by simp
  with w vb c' show ?thesis by blast
qed

lemma writeValue_outline_ok:
  assumes "\<not> (c \<and> length b \<le> 4)" and "cur e = Some f" and "\<not> blockedOnKey e"
  shows "\<exists>e'. writeValue t b c e = Inr e'
           \<and> cur e' = Some (f\<lparr>elems := elems f @ [value_pointer (fst (nextWritePos e)) kWide]\<rparr>)
           \<and> out e' = out (snd (nextWritePos e)) @ set_tag t b"
proof -
  obtain pos e1 where n: "nextWritePos e = (pos, e1)" by (cases "nextWritePos e")
  from n assms(2,3) have c1: "cur e1 = Some f" and k1: "\<not> blockedOnKey e1"
    by (auto simp: nextWritePos_def Let_def cur_def split: if_splits)
  from addItem_ok [OF c1 k1, of "value_pointer pos kWide"] obtain e2 where
    a: "addItem (value_pointer pos kWide) e1 = Inr e2"
    and c2: "cur e2 = Some (f\<lparr>elems := elems f @ [value_pointer pos kWide]\<rparr>)" and o2: "out e2 = out e1"
    by blast
  from a n assms(1) have "writeValue t b c e = Inr (e2\<lparr>out := out e2 @ set_tag t b\<rparr>)"
    by (auto simp: writeValue_def Let_def bind_res_def writePointer_def)
  with c2 o2 n show ?thesis by simp
qed

text \<open>The number of bytes that \<^verbatim>\<open>PutIntOfLength\<close> writes for a signed value: the least
  number of bytes, between 1 and 8, whose two's complement range holds the value.\<close>

lemma PutIntOfLength_signed:
  "\<exists>n. PutIntOfLength i False = map (\<lambda>k. ucast (drop_bit (8 * k) i)) [0..<n]
       \<and> 1 \<le> n \<and> n \<le> 8
       \<and> - (2 ^ (8 * n - 1)) \<le> sint i \<and> sint i < 2 ^ (8 * n - 1)
       \<and> (\<forall>m. 1 \<le> m \<and> m < n \<longrightarrow> \<not> (- (2 ^ (8 * m - 1)) \<le> sint i \<and> sint i < 2 ^ (8 * m - 1)))"
proof (cases "List.find (int_fits False i) [1..<8]")
  case None
  then have no: "\<And>m. 1 \<le> m \<Longrightarrow> m < 8 \<Longrightarrow> \<not> int_fits False i m"
    by (auto simp: find_None_iff)
  have "- (2 ^ 63) \<le> sint i" "sint i < 2 ^ 63"
    using sint_ge [of i] sint_lt [of i] by simp_all
  with None no show ?thesis
    by (intro exI [of _ 8]) (auto simp: PutIntOfLength_def little_endian_def int_fits_def)
next
  case (Some n)
  then obtain j where j: "j < length [1..<8]" "int_fits False i ([1..<8] ! j)" "n = [1..<8] ! j"
    and first: "\<forall>k<j. \<not> int_fits False i ([1..<8] ! k)"
    by (auto simp: find_Some_iff)
  from j have n: "n = 1 + j" "j < 7" by (simp_all add: nth_upt)
  have less: "\<not> int_fits False i m" if "1 \<le> m" "m < n" for m
  proof -
    from that n have "m - 1 < j" by simp
    with first have "\<not> int_fits False i ([1..<8] ! (m - 1))" by blast
    moreover from that n have "[1..<8] ! (m - 1) = m" by (simp add: nth_upt)
    ultimately show ?thesis by simp
  qed
  from Some j n less show ?thesis
    by (intro exI [of _ n]) (auto simp: PutIntOfLength_def little_endian_def int_fits_def)
qed


text \<open>
  C5, as the claim has it, fails at \<open>- 2048\<close>: \<^verbatim>\<open>writeInt\<close> emits the two-byte short
  form \<^verbatim>\<open>08 00\<close> (tag 0, the twelve bits 0x800) there, not the full-length form, which
  would be the size byte \<^verbatim>\<open>11\<close> and the bytes \<^verbatim>\<open>00 F8\<close>.
\<close>

theorem writeInt64_counterexample:
  "map_sum id (map elems \<circ> stack) (writeInt64 (- 2048) (Encoder [])) = Inr [[Value 0x08 0x00 0 0]]
   \<and> map_sum id (map elems \<circ> stack) (writeInt64 (- 2048) (Encoder [])) \<noteq> Inr [[Value 0x11 0x00 0xF8 0]]
   \<and> map_sum id (map wide \<circ> stack) (writeInt64 (- 2048) (Encoder [])) = Inr [False]"
  by code_simp

text \<open>The boundary values: 2047, \<open>- 2047\<close> and \<open>- 2048\<close> give short words, 2048 and
  \<open>- 2049\<close> give full-length words (size byte with tag 1, two little-endian bytes, one
  byte of padding), which make the frame wide.\<close>

lemma writeInt64_boundaries:
  "map_sum id (map elems \<circ> stack) (writeInt64 2047 (Encoder [])) = Inr [[Value 0x07 0xFF 0 0]]"
  "map_sum id (map elems \<circ> stack) (writeInt64 (- 2047) (Encoder [])) = Inr [[Value 0x08 0x01 0 0]]"
  "map_sum id (map elems \<circ> stack) (writeInt64 (- 2048) (Encoder [])) = Inr [[Value 0x08 0x00 0 0]]"
  "map_sum id (map elems \<circ> stack) (writeInt64 2048 (Encoder [])) = Inr [[Value 0x11 0x00 0x08 0]]"
  "map_sum id (map elems \<circ> stack) (writeInt64 (- 2049) (Encoder [])) = Inr [[Value 0x11 0xFF 0xF7 0]]"
  "map_sum id (map wide \<circ> stack) (writeInt64 2048 (Encoder [])) = Inr [True]"
  by code_simp+

text \<open>A value of five bytes: the record, size byte \<^verbatim>\<open>14\<close> and the bytes of \<open>2 ^ 31\<close>
  with one byte of padding, is written to the stream, and the frame holds a pointer to it.\<close>

lemma writeInt64_outline:
  "map_sum id out (writeInt64 (2 ^ 31) (Encoder [])) = Inr [0x14, 0x00, 0x00, 0x00, 0x80, 0x00]"
  "map_sum id (map elems \<circ> stack) (writeInt64 (2 ^ 31) (Encoder [])) = Inr [[Value 0x80 0 0 0]]"
  by (simp_all add: writeInt64_def writeInt_def PutIntOfLength_def int_fits_def little_endian_def
      upt_rec [of _ 8] upt_rec [of _ 5] word_sless_alt word_sle_eq Let_def writeValue_def
      writePointer_def addItem_def Encoder_eq cur_def upd_cur_def nextWritePos_def bind_res_def
      value_pointer_def set_tag_def kWide_def)

text \<open>
  C5, amended. On an encoder with an open frame that does not wait for a key,
  \<^verbatim>\<open>writeInt(int64_t)\<close> returns and appends one word to the frame. The word carries the
  short-int tag exactly when \<open>- 2048 \<le> i < 2048\<close>: the short form is used at 2047,
  \<open>- 2047\<close> and also \<open>- 2048\<close>; the word then holds the low twelve bits of \<open>i\<close> and
  nothing is written to the stream. Outside that range (2048, \<open>- 2049\<close>) the full-length
  form is used. Its record is the size byte \<open>n - 1\<close> with the int tag, the \<open>n\<close> low
  bytes of \<open>i\<close>, least significant first, and one byte of padding when \<open>n\<close> is even,
  where \<open>n\<close> is the least number of bytes whose two's complement range holds \<open>i\<close>.
  A record of four bytes (\<open>n \<le> 3\<close>) is the word itself and makes the frame wide; a longer
  one is written to the stream at the next even position and the word is a pointer to it.
\<close>

theorem writeInt64_form:
  assumes cur: "cur e = Some f" and key: "\<not> blockedOnKey e"
  shows "\<exists>e' v f'. writeInt64 i e = Inr e' \<and> cur e' = Some f' \<and> elems f' = elems f @ [v]
           \<and> ((drop_bit 4 (byte0 v) = tag_code kShortIntTag) = (- 2048 \<le> sint i \<and> sint i < 2048))
           \<and> (if - 2048 \<le> sint i \<and> sint i < 2048
               then v = Value (ucast (drop_bit 8 i AND 0x0F)) (ucast (i AND 0xFF)) 0 0 \<and> out e' = out e
               else \<exists>n. 2 \<le> n \<and> n \<le> 8
                      \<and> - (2 ^ (8 * n - 1)) \<le> sint i \<and> sint i < 2 ^ (8 * n - 1)
                      \<and> (\<forall>m. 1 \<le> m \<and> m < n \<longrightarrow>
                             \<not> (- (2 ^ (8 * m - 1)) \<le> sint i \<and> sint i < 2 ^ (8 * m - 1)))
                      \<and> (let rec = (of_nat (n - 1) OR 0x10) # map (\<lambda>k. ucast (drop_bit (8 * k) i)) [0..<n]
                                       @ (if even n then [0] else [])
                          in if n \<le> 3
                             then value_bytes v = rec @ replicate (4 - length rec) 0 \<and> wide f'
                                  \<and> out e' = out e
                             else v = value_pointer (length (out (snd (nextWritePos e)))) kWide
                                  \<and> out e' = out (snd (nextWritePos e)) @ rec))"
proof (cases "- 2048 \<le> sint i \<and> sint i < 2048")
  case True
  let ?v = "Value (ucast (drop_bit 8 i AND 0x0F)) (ucast (i AND 0xFF)) 0 0"
  from addItem_ok [OF cur key, of ?v] obtain e' where a: "addItem ?v e = Inr e'"
    and c: "cur e' = Some (f\<lparr>elems := elems f @ [?v]\<rparr>)" and o: "out e' = out e" by blast
  from a True have "writeInt64 i e = Inr e'"
    by (simp add: writeInt64_def writeInt_def isSmall_sint value_inline_def)
  with c o True show ?thesis by (auto simp: short_nibble)
next
  case False
  from PutIntOfLength_signed [of i] obtain n where
    bs: "PutIntOfLength i False = map (\<lambda>k. ucast (drop_bit (8 * k) i)) [0..<n]"
    and n: "1 \<le> n" "n \<le> 8"
    and fits: "- (2 ^ (8 * n - 1)) \<le> sint i" "sint i < 2 ^ (8 * n - 1)"
    and least: "\<forall>m. 1 \<le> m \<and> m < n \<longrightarrow> \<not> (- (2 ^ (8 * m - 1)) \<le> sint i \<and> sint i < 2 ^ (8 * m - 1))"
    by blast
  have n2: "2 \<le> n"
  proof (rule ccontr)
    assume "\<not> 2 \<le> n"
    with n have "n = 1" by simp
    with fits False show False by simp
  qed
  let ?bs = "map (\<lambda>k. ucast (drop_bit (8 * k) i) :: byte) [0..<n]"
  let ?rec = "(of_nat (n - 1) OR 0x10) # ?bs @ (if even n then [0] else [])"
  let ?b = "(of_nat n - 1 :: byte) # ?bs @ (if even n then [0] else [])"
  from False isSmall_sint [of i] have large: "(i <s 2048 \<and> - 2048 \<le>s i) = False" by blast
  have w: "writeInt64 i e = writeValue kIntTag ?b True e"
    unfolding writeInt64_def writeInt_def large by (simp add: Let_def bs)
  from n have sz: "(of_nat n - 1 :: byte) = of_nat (n - 1)" by simp
  have st: "set_tag kIntTag ?b = ?rec" by (simp add: set_tag_def sz)
  have lb: "length ?b = n + 1 + (if even n then 1 else 0)" by simp
  show ?thesis
  proof (cases "n \<le> 3")
    case True
    with n2 have "n = 2 \<or> n = 3" by arith
    then have l4: "length ?b \<le> 4" and l2: "2 < length ?b" by auto
    from writeValue_inline_ok [OF l4 cur key, of kIntTag] l2 obtain e' v where
      ok: "writeValue kIntTag ?b True e = Inr e'"
      and vb: "value_bytes v = set_tag kIntTag ?b @ replicate (4 - length ?b) 0"
      and c: "cur e' = Some (f\<lparr>elems := elems f @ [v], wide := True\<rparr>)" and o: "out e' = out e"
      by auto
    from vb have "byte0 v = (of_nat n - 1 :: byte) OR push_bit 4 (tag_code kIntTag)"
      by (simp add: value_bytes_def set_tag_def)
    with int_size_nibble [of n] n have nib: "drop_bit 4 (byte0 v) = 1" by simp
    from vb st have vb': "value_bytes v = ?rec @ replicate (4 - length ?rec) 0" by simp
    show ?thesis
      apply (intro exI [of _ e'] exI [of _ v] exI [of _ "f\<lparr>elems := elems f @ [v], wide := True\<rparr>"])
      using w ok c o nib False n2 n fits least vb' True
      by (auto simp: Let_def intro!: exI [of _ n])
  next
    case F3: False
    then have "\<not> (True \<and> length ?b \<le> 4)" by simp
    from writeValue_outline_ok [OF this cur key, of kIntTag] obtain e' where
      ok: "writeValue kIntTag ?b True e = Inr e'"
      and c: "cur e' = Some (f\<lparr>elems := elems f @ [value_pointer (fst (nextWritePos e)) kWide]\<rparr>)"
      and o: "out e' = out (snd (nextWritePos e)) @ set_tag kIntTag ?b"
      by blast
    let ?v = "value_pointer (fst (nextWritePos e)) kWide"
    have len: "fst (nextWritePos e) = length (out (snd (nextWritePos e)))"
      by (simp add: nextWritePos_def Let_def)
    have nib: "drop_bit 4 (byte0 ?v) \<noteq> 0"
      by (rule pointer_tag_nibble) (rule value_pointer_isPointer)
    show ?thesis
      apply (intro exI [of _ e'] exI [of _ ?v] exI [of _ "f\<lparr>elems := elems f @ [?v]\<rparr>"])
      using w ok c o nib False n2 n fits least F3 st len
      by (auto simp: Let_def intro!: exI [of _ n])
  qed
qed

theorem writeInt64_form_witness:
  "cur (Encoder []) = Some \<lparr>elems = [], tag = kSpecialTag, wide = False, keys = []\<rparr>
   \<and> \<not> blockedOnKey (Encoder [])
   \<and> (\<exists>e' v f'. writeInt64 2048 (Encoder []) = Inr e' \<and> cur e' = Some f' \<and> elems f' = [v]
          \<and> value_bytes v = [0x11, 0x00, 0x08, 0x00] \<and> wide f' \<and> out e' = [])"
proof -
  let ?f = "\<lparr>elems = [], tag = kSpecialTag, wide = False, keys = []\<rparr>"
  have h1: "cur (Encoder []) = Some ?f" by (simp add: Encoder_eq cur_def)
  have h2: "\<not> blockedOnKey (Encoder [])" by (simp add: Encoder_eq)
  have s: "sint (2048 :: 64 word) = 2048" by simp
  from writeInt64_form [OF h1 h2, of 2048] obtain e' v f' n where
    r: "writeInt64 2048 (Encoder []) = Inr e'" "cur e' = Some f'" "elems f' = [v]"
    and n: "2 \<le> n" "n \<le> 8"
    and least: "\<forall>m. 1 \<le> m \<and> m < n \<longrightarrow>
                  \<not> (- (2 ^ (8 * m - 1)) \<le> sint (2048 :: 64 word) \<and> sint (2048 :: 64 word) < 2 ^ (8 * m - 1))"
    and form: "let rec = (of_nat (n - 1) OR 0x10) # map (\<lambda>k. ucast (drop_bit (8 * k) (2048 :: 64 word))) [0..<n]
                          @ (if even n then [0] else [])
               in if n \<le> 3
                  then value_bytes v = rec @ replicate (4 - length rec) 0 \<and> wide f' \<and> out e' = out (Encoder [])
                  else v = value_pointer (length (out (snd (nextWritePos (Encoder []))))) kWide
                       \<and> out e' = out (snd (nextWritePos (Encoder []))) @ rec"
    unfolding s by auto
  have n2: "n = 2"
  proof (rule ccontr)
    assume "n \<noteq> 2"
    with n have "1 \<le> (2 :: nat) \<and> 2 < n" by simp
    with least have "\<not> (- (2 ^ (8 * 2 - 1)) \<le> sint (2048 :: 64 word) \<and> sint (2048 :: 64 word) < 2 ^ (8 * 2 - 1))"
      by blast
    then show False unfolding s by simp
  qed
  have up: "[0..<2] = [0, 1]" by (simp add: upt_rec)
  from form have "value_bytes v = [0x11, 0x00, 0x08, 0x00] \<and> wide f' \<and> out e' = []"
    unfolding n2 by (simp add: Let_def up Encoder_eq)
  with r h1 h2 show ?thesis by blast
qed
subsection \<open>The trailer\<close>

lemma clear_top_bit: "unat ((of_nat a OR 0x80) AND 0x7F :: byte) = a mod 128"
proof -
  have m: "(0x7F :: byte) = mask 7" by (simp add: mask_eq_exp_minus_1)
  have "((of_nat a OR 0x80) AND 0x7F :: byte) = take_bit 7 (of_nat a OR 0x80 :: byte)"
    unfolding m by (simp add: take_bit_eq_mask)
  also have "\<dots> = take_bit 7 (of_nat a :: byte)"
    by (simp add: take_bit_or)
  finally have "unat ((of_nat a OR 0x80) AND 0x7F :: byte) = take_bit 7 (unat (of_nat a :: byte))"
    by (simp add: unsigned_take_bit_eq)
  also have "\<dots> = a mod 256 mod 128" by (simp add: unat_of_nat take_bit_eq_mod)
  also have "\<dots> = a mod 128" by (simp add: mod_mod_cancel)
  finally show ?thesis .
qed

lemma unat_byte_of_nat: "unat (of_nat b :: byte) = b mod 256"
  by (simp add: unat_of_nat)

lemma split2: "(off :: nat) div 256 mod 128 * 256 + off mod 256 = off mod 32768"
proof -
  have "off mod (256 * 128) = 256 * (off div 256 mod 128) + off mod 256" by (rule mod_mult2_eq)
  then show ?thesis by simp
qed

lemma split4:
  "(off :: nat) div 16777216 mod 128 * 16777216 + off div 65536 mod 256 * 65536
     + off div 256 mod 256 * 256 + off mod 256 = off mod 2147483648"
proof -
  define q1 q2 q3 where "q1 = off div 256" and "q2 = q1 div 256" and "q3 = q2 div 256"
  have a: "off div 65536 = q2" by (simp add: q2_def q1_def div_mult2_eq)
  have b: "off div 16777216 = q3" by (simp add: q3_def q2_def q1_def div_mult2_eq)
  have "off mod (256 * 8388608) = 256 * (q1 mod 8388608) + off mod 256"
    unfolding q1_def by (rule mod_mult2_eq)
  moreover have "q1 mod (256 * 32768) = 256 * (q2 mod 32768) + q1 mod 256"
    unfolding q2_def by (rule mod_mult2_eq)
  moreover have "q2 mod (256 * 128) = 256 * (q3 mod 128) + q2 mod 256"
    unfolding q3_def by (rule mod_mult2_eq)
  ultimately have "off mod 2147483648
      = q3 mod 128 * 16777216 + q2 mod 256 * 65536 + q1 mod 256 * 256 + off mod 256"
    by simp
  then show ?thesis unfolding a b q1_def [symmetric] by simp
qed

lemma value_pointer_decode:
  assumes "even d"
  shows "pointerValue (\<not> w < kWide) (value_pointer d w) = d mod (if w < kWide then 2 ^ 16 else 2 ^ 32)"
proof -
  from assms obtain off where d: "d = 2 * off" by (auto elim: evenE)
  show ?thesis
  proof (cases "w < kWide")
    case True
    then have "pointerValue (\<not> w < kWide) (value_pointer d w) = 2 * (off div 256 mod 128 * 256 + off mod 256)"
      by (simp add: value_pointer_def pointerValue_def d clear_top_bit unat_byte_of_nat)
    also have "\<dots> = 2 * (off mod 32768)" by (simp only: split2)
    also have "\<dots> = d mod 65536" unfolding d by (simp add: mult_mod_right)
    finally show ?thesis using True by simp
  next
    case False
    then have "pointerValue (\<not> w < kWide) (value_pointer d w)
        = 2 * (off div 16777216 mod 128 * 16777216 + off div 65536 mod 256 * 65536
               + off div 256 mod 256 * 256 + off mod 256)"
      by (simp add: value_pointer_def pointerValue_def d clear_top_bit unat_byte_of_nat)
    also have "\<dots> = 2 * (off mod 2147483648)" by (simp only: split4)
    also have "\<dots> = d mod 4294967296" unfolding d by (simp add: mult_mod_right)
    finally show ?thesis using False by simp
  qed
qed

lemma nextWritePos_even: "even (fst (nextWritePos e))"
  by (simp add: nextWritePos_def Let_def)

lemma pointerValue_even: "even (pointerValue w v)"
  by (simp add: pointerValue_def)

text \<open>What \<^verbatim>\<open>end\<close> does on an encoder whose only open frame, the top-level one, holds
  one item: it returns, unless the item is a pointer at or after the next position (the
  assertion of \<^verbatim>\<open>fixPointers\<close>), and the stream ends with the root word of the frame's
  width, followed by the narrow pointer \<^verbatim>\<open>80 02\<close> when the frame is wide.\<close>

lemma end_encoder_root:
  assumes "stackDepth e = 1" and "cur e = Some f" and "elems f = [root]"
    and "isPointer root \<Longrightarrow> pointerValue True root < fst (nextWritePos e)"
  shows "\<exists>e'. end_encoder e = Inr e' \<and> stackDepth e' = 0
          \<and> out e' = out (snd (nextWritePos e))
               @ (let root' = (if isPointer root
                               then value_pointer (fst (nextWritePos e) - pointerValue True root)
                                      (if wide f then kWide else kNarrow)
                               else root)
                  in if wide f then value_bytes root' @ [0x80, 0x02] else narrow_bytes root')"
proof -
  obtain base e1 where n: "nextWritePos e = (base, e1)" by (cases "nextWritePos e")
  from assms(4) n have a: "isPointer root \<Longrightarrow> pointerValue True root < base" by simp
  have p4: "narrow_bytes (value_pointer 4 kNarrow) = [0x80, 0x02]"
    by (simp add: value_pointer_4 narrow_bytes_def)
  show ?thesis
    using assms(1,2,3) n a
    by (cases "isPointer root")
       (simp_all add: end_encoder_def fixPointers_def bind_res_def Let_def p4)
qed

text \<open>The last two bytes that \<^verbatim>\<open>end\<close> leaves. A narrow pointer holds the distance to
  the root up to a multiple of 65536: it leads to the root when the root lies less than
  65536 bytes back.\<close>

lemma end_encoder_last_word:
  assumes "stackDepth e = 1" and "cur e = Some f" and "elems f = [root]"
    and "isPointer root \<Longrightarrow> pointerValue True root < fst (nextWritePos e)"
  shows "\<exists>e' w. end_encoder e = Inr e' \<and> drop (length (out e') - 2) (out e') = narrow_bytes w
          \<and> (if wide f then w = Value 0x80 0x02 0 0
              else if isPointer root
                   then isPointer w
                        \<and> pointerValue False w = (fst (nextWritePos e) - pointerValue True root) mod 2 ^ 16
                   else w = root)"
proof -
  let ?d = "fst (nextWritePos e) - pointerValue True root"
  let ?root' = "if isPointer root then value_pointer ?d (if wide f then kWide else kNarrow) else root"
  let ?w = "if wide f then Value 0x80 0x02 0 0 else ?root'"
  from end_encoder_root [OF assms] obtain e' where e': "end_encoder e = Inr e'"
    and o: "out e' = out (snd (nextWritePos e))
                      @ (if wide f then value_bytes ?root' @ [0x80, 0x02] else narrow_bytes ?root')"
    by (auto simp: Let_def)
  have d: "drop (length (out e') - 2) (out e') = narrow_bytes ?w"
    unfolding o by (simp add: narrow_bytes_def value_bytes_def)
  have "even ?d" by (simp add: nextWritePos_even pointerValue_even)
  from value_pointer_decode [OF this, of kNarrow]
  have "pointerValue False (value_pointer ?d kNarrow) = ?d mod 2 ^ 16"
    by (simp add: kNarrow_def kWide_def)
  with e' d show ?thesis
    by (intro exI [of _ e'] exI [of _ ?w]) (simp add: value_pointer_isPointer)
qed

text \<open>No narrow word leads 65536 bytes back or more, whatever the constructor of a
  pointer word puts into it.\<close>

lemma narrow_pointer_range: "pointerValue False v < 65536"
proof -
  have "byte0 v AND 0x7F \<le> 0x7F" by (rule word_and_le1)
  then have a: "unat (byte0 v AND 0x7F) \<le> 127" by (simp add: word_le_nat_alt)
  have b: "unat (byte1 v) < 256" using unsigned_less [of "byte1 v", where 'a = nat] by simp
  from a have "unat (byte0 v AND 0x7F) * 256 \<le> 127 * 256" by (rule mult_le_mono1)
  with b show ?thesis by (simp add: pointerValue_def)
qed

text \<open>
  C2: the code at the failing input. A top-level binary value of 65536 bytes is written to
  the stream, header \<^verbatim>\<open>5F 80 80 04\<close> at position 0, and the top-level frame, which stays
  narrow, holds a pointer to it. \<^verbatim>\<open>end\<close> calls \<^verbatim>\<open>fixPointers\<close> without
  \<^verbatim>\<open>checkPointerWidths\<close> and writes the pointer as a narrow word at position 65540.
  The half of the offset, 32770, does not fit its 15 bits: the word is \<^verbatim>\<open>80 02\<close>, a
  pointer that leads 4 bytes back, into the bytes of the value, and not the 65540 bytes
  back to the root.
\<close>

theorem end_far_root:
  "map_sum id (map elems \<circ> stack) (do_calls [WriteData (replicate 65536 0x61)] (Encoder []))
     = Inr [[Value 0x80 0 0 0]]
   \<and> map_sum id (map wide \<circ> stack) (do_calls [WriteData (replicate 65536 0x61)] (Encoder []))
     = Inr [False]
   \<and> map_sum id out (do_calls [WriteData (replicate 65536 0x61), End] (Encoder []))
     = Inr ([0x5F, 0x80, 0x80, 0x04] @ replicate 65536 0x61 @ [0x80, 0x02])
   \<and> isPointer (Value 0x80 0x02 0 0) \<and> pointerValue False (Value 0x80 0x02 0 0) = 4"
  by (simp add: Encoder_eq writeBinary_def writeData_def writeValue_def writePointer_def
      addItem_def cur_def upd_cur_def nextWritePos_def bind_res_def kNarrow_def kWide_def
      set_tag_def Let_def PutUVarInt.simps end_encoder_def fixPointers_def isPointer_def
      pointerValue_def value_pointer_def narrow_bytes_def value_bytes_def)

subsection \<open>Shared strings\<close>

lemma cur_strings_update [simp]: "cur (e\<lparr>strings := x\<rparr>) = cur e"
  by (simp add: cur_def)

lemma cur_flags_update [simp]:
  "cur (e\<lparr>blockedOnKey := b\<rparr>) = cur e" "cur (e\<lparr>writingKey := b\<rparr>) = cur e"
  by (simp_all add: cur_def)

lemma nextWritePos_fields:
  "nextWritePos e = (pos, e1) \<Longrightarrow>
     strings e1 = strings e \<and> uniqueStrings e1 = uniqueStrings e \<and> cur e1 = cur e
     \<and> stackDepth e1 = stackDepth e \<and> stack e1 = stack e \<and> blockedOnKey e1 = blockedOnKey e
     \<and> writingKey e1 = writingKey e \<and> sortKeys e1 = sortKeys e \<and> pos = length (out e1) \<and> even pos"
  by (auto simp: nextWritePos_def Let_def cur_def split: if_splits)

lemma nextWritePos_idem:
  "nextWritePos e = (pos, e1) \<Longrightarrow> nextWritePos e1 = (pos, e1)"
  by (auto simp: nextWritePos_def Let_def split: if_splits)

lemma writePointer_Inr:
  assumes "writePointer p e = Inr e'"
  shows "\<exists>f v. v = value_pointer p kWide \<and> cur e = Some f
           \<and> cur e' = Some (f\<lparr>elems := elems f @ [v]\<rparr>) \<and> out e' = out e
           \<and> strings e' = strings e \<and> uniqueStrings e' = uniqueStrings e"
proof -
  from assms have a: "addItem (value_pointer p kWide) e = Inr e'" by (simp add: writePointer_def)
  from addItem_Inr [OF a] show ?thesis by auto
qed

lemma strings_upd_cur [simp]: "strings (upd_cur g e) = strings e"
  by (simp add: upd_cur_def)

lemma uniqueStrings_upd_cur [simp]: "uniqueStrings (upd_cur g e) = uniqueStrings e"
  by (simp add: upd_cur_def)

lemma writeValue_strings:
  assumes "writeValue t b c e = Inr e'"
  shows "strings e' = strings e \<and> uniqueStrings e' = uniqueStrings e"
proof (cases "c \<and> length b \<le> 4")
  case True
  with assms obtain v e1 where a: "addItem v e = Inr e1"
    and e': "e' = (if length b > 2 then upd_cur (\<lambda>f. f\<lparr>wide := True\<rparr>) e1 else e1)"
    by (auto simp: writeValue_def Let_def bind_res_def split: sum.splits)
  from addItem_Inr [OF a] e' show ?thesis by auto
next
  case False
  obtain pos e1 where n: "nextWritePos e = (pos, e1)" by (cases "nextWritePos e")
  from assms False n obtain e2 where w: "writePointer pos e1 = Inr e2"
    and e': "e' = e2\<lparr>out := out e2 @ set_tag t b\<rparr>"
    by (auto simp: writeValue_def Let_def bind_res_def split: sum.splits)
  from writePointer_Inr [OF w] nextWritePos_fields [OF n] e' show ?thesis by auto
qed

lemma writeData_strings:
  assumes "writeData t s e = Inr (sl, e')"
  shows "strings e' = strings e \<and> uniqueStrings e' = uniqueStrings e"
  using assms
  by (auto simp: writeData_def Let_def bind_res_def split: sum.splits if_splits dest!: writeValue_strings)

text \<open>The first write of a string that takes part in the sharing.\<close>

lemma writeData_outline:
  assumes "writeData t s e = Inr (sl, e')" and "kNarrow \<le> length s" and "cur e = Some f"
  shows "\<exists>v. cur e' = Some (f\<lparr>elems := elems f @ [v]\<rparr>)
           \<and> v = value_pointer (fst (nextWritePos e)) kWide
           \<and> out e' = out (snd (nextWritePos e)) @ data_header t s @ s
           \<and> sl = slice_of s"
proof -
  let ?b = "[of_nat (min (length s) 0xF)] @ (if length s \<ge> 0x0F then PutUVarInt (length s) else [])
                @ (if length s = 0 then [0] else [])"
  from assms(1,2) obtain e1 where w: "writeValue t ?b False e = Inr e1"
    and e': "e' = e1\<lparr>out := out e1 @ s\<rparr>" and sl: "sl = slice_of s"
    by (auto simp: writeData_def Let_def bind_res_def split: sum.splits if_splits)
  have "\<not> (False \<and> length ?b \<le> 4)" by simp
  from writeValue_outline_Inr [OF w this assms(3)] obtain v where
    c: "cur e1 = Some (f\<lparr>elems := elems f @ [v]\<rparr>)"
    and vp: "v = value_pointer (fst (nextWritePos e)) kWide"
    and o: "out e1 = out (snd (nextWritePos e)) @ set_tag t ?b"
    by blast
  from c e' have "cur e' = Some (f\<lparr>elems := elems f @ [v]\<rparr>)" by simp
  moreover from o e' have "out e' = out (snd (nextWritePos e)) @ data_header t s @ s"
    by (simp add: data_header_def)
  ultimately show ?thesis using vp sl by blast
qed

lemma string_first_write:
  assumes ok: "writeString_impl s asKey e = Inr (sl, e1)"
    and guard: "uniqueStrings e" "kNarrow \<le> length s" "length s \<le> kMaxSharedStringSize"
    and miss: "map_of (strings e) s = None" and c: "cur e = Some f"
  shows "string_offset e1 s = Some (fst (nextWritePos e) mod 2 ^ 32)
         \<and> out e1 = out (snd (nextWritePos e)) @ data_header kStringTag s @ s
         \<and> uniqueStrings e1
         \<and> (\<exists>v. cur e1 = Some (f\<lparr>elems := elems f @ [v]\<rparr>) \<and> isPointer v
                  \<and> pointerValue True v = fst (nextWritePos e) mod 2 ^ 32)"
proof -
  obtain pos e0 where n: "nextWritePos e = (pos, e0)" by (cases "nextWritePos e")
  from ok guard miss n obtain e2 where wd: "writeData kStringTag s e0 = Inr (sl, e2)"
    and e1: "e1 = (case buf sl of
                     Some _ \<Rightarrow> e2\<lparr>strings := (s, \<lparr>offset = pos mod 2 ^ 32, usedAsKey = asKey\<rparr>) # strings e2\<rparr>
                   | None \<Rightarrow> e2)"
    by (auto simp: writeString_impl_def bind_res_def split: sum.splits)
  from nextWritePos_fields [OF n] c have c0: "cur e0 = Some f" and ev: "even pos"
    and u0: "uniqueStrings e0 = uniqueStrings e" by (metis, blast, blast)
  from writeData_outline [OF wd guard(2) c0] nextWritePos_idem [OF n] obtain v where
    c2: "cur e2 = Some (f\<lparr>elems := elems f @ [v]\<rparr>)"
    and vp: "v = value_pointer pos kWide"
    and o2: "out e2 = out e0 @ data_header kStringTag s @ s"
    and sl: "sl = slice_of s"
    by auto
  from writeData_strings [OF wd] u0 guard(1) have u2: "uniqueStrings e2" by simp
  from sl e1 have e1': "e1 = e2\<lparr>strings := (s, \<lparr>offset = pos mod 2 ^ 32, usedAsKey = asKey\<rparr>) # strings e2\<rparr>"
    by (simp add: slice_of_def)
  from e1' have so: "string_offset e1 s = Some (pos mod 2 ^ 32)" by (simp add: string_offset_def)
  from e1' c2 have c1: "cur e1 = Some (f\<lparr>elems := elems f @ [v]\<rparr>)" by simp
  from value_pointer_decode [OF ev, of kWide] have pv: "pointerValue True v = pos mod 2 ^ 32"
    by (simp add: kWide_def vp)
  from so o2 e1' u2 c1 pv value_pointer_isPointer [of pos kWide] vp n show ?thesis by auto
qed

lemma string_later_write:
  assumes ok: "writeString_impl s asKey e = Inr (sl, e1)"
    and guard: "uniqueStrings e" "kNarrow \<le> length s" "length s \<le> kMaxSharedStringSize"
    and hit: "string_offset e s = Some p" and c: "cur e = Some f" and ev: "even p" "p < 2 ^ 32"
  shows "out e1 = out e
         \<and> (\<exists>v. cur e1 = Some (f\<lparr>elems := elems f @ [v]\<rparr>) \<and> isPointer v \<and> pointerValue True v = p)"
proof -
  from hit obtain entry where en: "map_of (strings e) s = Some entry" and p: "offset entry = p"
    by (auto simp: string_offset_def)
  from ok guard en obtain e2 where wp: "writePointer (offset entry) e = Inr e2"
    and e1: "e1 = (if asKey
                  then e2\<lparr>strings := map (\<lambda>(k, i). if k = s then (k, i\<lparr>usedAsKey := True\<rparr>) else (k, i))
                                         (strings e2)\<rparr>
                  else e2)"
    by (auto simp: writeString_impl_def bind_res_def split: sum.splits)
  from writePointer_Inr [OF wp] c p obtain v where vp: "v = value_pointer p kWide"
    and c2: "cur e2 = Some (f\<lparr>elems := elems f @ [v]\<rparr>)" and o2: "out e2 = out e"
    by auto
  from e1 c2 have c1: "cur e1 = Some (f\<lparr>elems := elems f @ [v]\<rparr>)" by simp
  from e1 o2 have o1: "out e1 = out e" by simp
  from value_pointer_decode [OF ev(1), of kWide] ev(2) have "pointerValue True v = p"
    by (simp add: kWide_def vp)
  with c1 o1 value_pointer_isPointer [of p kWide] vp show ?thesis by auto
qed


lemma map_of_mark_used:
  "map_option offset (map_of (map (\<lambda>(k, i). if k = s' then (k, i\<lparr>usedAsKey := True\<rparr>) else (k, i)) xs) s)
     = map_option offset (map_of xs s)"
proof (induction xs)
  case Nil
  show ?case by simp
next
  case (Cons x xs)
  obtain k i where x: "x = (k, i)" by (cases x)
  show ?case using Cons unfolding x by (cases "k = s'"; cases "k = s"; simp)
qed

lemma writeString_impl_keeps:
  assumes ok: "writeString_impl s' asKey e = Inr (sl, e')" and so: "string_offset e s = Some p"
  shows "string_offset e' s = Some p \<and> uniqueStrings e' = uniqueStrings e"
proof (cases "uniqueStrings e \<and> length s' \<ge> kNarrow \<and> length s' \<le> kMaxSharedStringSize")
  case False
  with ok have "writeData kStringTag s' e = Inr (sl, e')" by (auto simp: writeString_impl_def)
  from writeData_strings [OF this] so show ?thesis by (simp add: string_offset_def)
next
  case guard: True
  show ?thesis
  proof (cases "map_of (strings e) s'")
    case (Some entry)
    with ok guard obtain e2 where wp: "writePointer (offset entry) e = Inr e2"
      and e': "e' = (if asKey
                  then e2\<lparr>strings := map (\<lambda>(k, i). if k = s' then (k, i\<lparr>usedAsKey := True\<rparr>) else (k, i))
                                         (strings e2)\<rparr>
                  else e2)"
      by (auto simp: writeString_impl_def bind_res_def split: sum.splits)
    from writePointer_Inr [OF wp] have "strings e2 = strings e" "uniqueStrings e2 = uniqueStrings e"
      by auto
    then have "string_offset e' s = string_offset e s" and "uniqueStrings e' = uniqueStrings e"
      unfolding e' string_offset_def by (simp_all add: map_of_mark_used)
    with so show ?thesis by simp
  next
    case None
    obtain pos e0 where n: "nextWritePos e = (pos, e0)" by (cases "nextWritePos e")
    from ok guard None n obtain e2 where wd: "writeData kStringTag s' e0 = Inr (sl, e2)"
      and e': "e' = (case buf sl of
                     Some _ \<Rightarrow> e2\<lparr>strings := (s', \<lparr>offset = pos mod 2 ^ 32, usedAsKey = asKey\<rparr>) # strings e2\<rparr>
                   | None \<Rightarrow> e2)"
      by (auto simp: writeString_impl_def bind_res_def split: sum.splits)
    from writeData_strings [OF wd] nextWritePos_fields [OF n]
    have st: "strings e2 = strings e" "uniqueStrings e2 = uniqueStrings e" by auto
    from None so have "s \<noteq> s'" by (auto simp: string_offset_def)
    with e' st so show ?thesis by (auto simp: string_offset_def split: option.splits)
  qed
qed

lemma fixPointers_fields:
  "fixPointers f e = Inr (f1, e1) \<Longrightarrow> strings e1 = strings e \<and> uniqueStrings e1 = uniqueStrings e"
  by (auto simp: fixPointers_def nextWritePos_def bind_res_def Let_def split: sum.splits if_splits)

lemma checkPointerWidths_fields:
  "checkPointerWidths f e = (f1, e1) \<Longrightarrow> strings e1 = strings e \<and> uniqueStrings e1 = uniqueStrings e"
  by (auto simp: checkPointerWidths_def nextWritePos_def Let_def split: if_splits)

lemma endCollection_strings:
  assumes "endCollection t e = Inr e'"
  shows "strings e' = strings e \<and> uniqueStrings e' = uniqueStrings e"
proof -
  from assms obtain f where c: "cur e = Some f" and tg: "tag f = t"
    by (auto simp: endCollection_def split: option.splits if_splits)
  let ?e1 = "e\<lparr>stackDepth := stackDepth e - 1, writingKey := False, blockedOnKey := False\<rparr>"
  from assms c tg obtain f1 where sd: "(if sortKeys ?e1 \<and> t = kDictTag then sortDict f else Inr f) = Inr f1"
    by (auto simp: endCollection_def bind_res_def Let_def split: sum.splits)
  obtain f2 e2 where cp: "checkPointerWidths f1 ?e1 = (f2, e2)" by (cases "checkPointerWidths f1 ?e1")
  let ?count = "if tag f2 = kDictTag then length (elems f2) mod 2 ^ 32 div 2 else length (elems f2) mod 2 ^ 32"
  from assms c tg sd cp obtain e3 f3 e4 where
    wv: "writeValue (tag f2) (collection_header ?count (wide f2)) (?count = 0) e2 = Inr e3"
    and fp: "fixPointers f2 e3 = Inr (f3, e4)"
    and e': "strings e' = strings e4 \<and> uniqueStrings e' = uniqueStrings e4"
    by (auto simp: endCollection_def bind_res_def Let_def split: sum.splits if_splits)
  from checkPointerWidths_fields [OF cp] writeValue_strings [OF wv] fixPointers_fields [OF fp] e'
  show ?thesis by simp
qed

lemma end_encoder_strings:
  "end_encoder e = Inr e' \<Longrightarrow> strings e' = strings e \<and> uniqueStrings e' = uniqueStrings e"
  unfolding end_encoder_def bind_res_def Let_def value_pointer_4
  by (auto split: option.splits if_splits sum.splits prod.splits dest!: fixPointers_fields)

lemma writeInt_strings:
  "writeInt i small u e = Inr e' \<Longrightarrow> strings e' = strings e \<and> uniqueStrings e' = uniqueStrings e"
  by (auto simp: writeInt_def Let_def split: if_splits dest!: addItem_Inr writeValue_strings)

lemma do_call_keeps:
  assumes ok: "do_call c e = Inr e'" and so: "string_offset e s = Some p"
  shows "string_offset e' s = Some p \<and> uniqueStrings e' = uniqueStrings e"
proof (cases c)
  case WriteNull
  with ok so show ?thesis by (auto simp: writeNull_def string_offset_def dest!: addItem_Inr)
next
  case (WriteBool b)
  with ok so show ?thesis by (auto simp: writeBool_def string_offset_def dest!: addItem_Inr)
next
  case (WriteInt i)
  with ok so show ?thesis by (auto simp: writeInt64_def string_offset_def dest!: writeInt_strings)
next
  case (WriteUInt i)
  with ok so show ?thesis by (auto simp: writeUInt_def string_offset_def dest!: writeInt_strings)
next
  case (WriteString s')
  with ok obtain sl where "writeString_impl s' False e = Inr (sl, e')"
    by (auto simp: writeString_def bind_res_def split: sum.splits)
  from writeString_impl_keeps [OF this so] show ?thesis .
next
  case (WriteData s')
  with ok obtain sl where "writeData kBinaryTag s' e = Inr (sl, e')"
    by (auto simp: writeBinary_def bind_res_def split: sum.splits)
  from writeData_strings [OF this] so show ?thesis by (simp add: string_offset_def)
next
  case (WriteKey s')
  with ok obtain sl e1 where w: "writeString_impl s' True (e\<lparr>blockedOnKey := False\<rparr>) = Inr (sl, e1)"
    and e': "e' = (if sortKeys e1 then upd_cur (\<lambda>f. f\<lparr>keys := keys f @ [sl]\<rparr>) e1 else e1)"
    by (auto simp: writeKey_def bind_res_def split: sum.splits if_splits option.splits)
  from so have "string_offset (e\<lparr>blockedOnKey := False\<rparr>) s = Some p" by (simp add: string_offset_def)
  from writeString_impl_keeps [OF w this] e' show ?thesis by (auto simp: string_offset_def)
next
  case (BeginArray n)
  with ok so show ?thesis by (auto simp: beginArray_def push_def Let_def string_offset_def)
next
  case (BeginDictionary n)
  with ok so show ?thesis by (auto simp: beginDictionary_def push_def Let_def string_offset_def)
next
  case EndArray
  with ok so show ?thesis by (auto simp: endArray_def string_offset_def dest!: endCollection_strings)
next
  case EndDictionary
  with ok so show ?thesis
    by (auto simp: endDictionary_def string_offset_def split: if_splits dest!: endCollection_strings)
next
  case End
  with ok so show ?thesis by (auto simp: string_offset_def dest!: end_encoder_strings)
qed

lemma do_calls_keeps:
  "do_calls cs e = Inr e' \<Longrightarrow> string_offset e s = Some p
     \<Longrightarrow> string_offset e' s = Some p \<and> uniqueStrings e' = uniqueStrings e"
proof (induction cs arbitrary: e)
  case Nil
  then show ?case by simp
next
  case (Cons c cs)
  from Cons.prems(1) obtain e1 where c: "do_call c e = Inr e1" and r: "do_calls cs e1 = Inr e'"
    by (auto simp: bind_res_def split: sum.splits)
  from do_call_keeps [OF c Cons.prems(2)] Cons.IH [OF r] show ?case by simp
qed


lemma writeValue_cur:
  assumes "writeValue t b c e = Inr e'"
  shows "\<exists>f. cur e = Some f"
proof (cases "c \<and> length b \<le> 4")
  case True
  with assms obtain v e1 where a: "addItem v e = Inr e1"
    by (auto simp: writeValue_def Let_def bind_res_def split: sum.splits)
  from addItem_Inr [OF a] show ?thesis by auto
next
  case False
  obtain pos e1 where n: "nextWritePos e = (pos, e1)" by (cases "nextWritePos e")
  from assms False n obtain e2 where w: "writePointer pos e1 = Inr e2"
    by (auto simp: writeValue_def Let_def bind_res_def split: sum.splits)
  from writePointer_Inr [OF w] nextWritePos_fields [OF n] show ?thesis by auto
qed

lemma writeString_impl_cur:
  assumes "writeString_impl s asKey e = Inr (sl, e')"
  shows "\<exists>f. cur e = Some f"
proof -
  have wd: "\<exists>f. cur e0 = Some f" if "writeData t s e0 = Inr (sl, e2)" for t e0 e2
    using that
    by (auto simp: writeData_def Let_def bind_res_def split: sum.splits if_splits dest!: writeValue_cur)
  show ?thesis
  proof (cases "uniqueStrings e \<and> length s \<ge> kNarrow \<and> length s \<le> kMaxSharedStringSize")
    case False
    with assms have "writeData kStringTag s e = Inr (sl, e')" by (auto simp: writeString_impl_def)
    from wd [OF this] show ?thesis .
  next
    case guard: True
    show ?thesis
    proof (cases "map_of (strings e) s")
      case (Some entry)
      with assms guard obtain e2 where "writePointer (offset entry) e = Inr e2"
        by (auto simp: writeString_impl_def bind_res_def split: sum.splits)
      from writePointer_Inr [OF this] show ?thesis by auto
    next
      case None
      obtain pos e0 where n: "nextWritePos e = (pos, e0)" by (cases "nextWritePos e")
      from assms guard None n obtain e2 where "writeData kStringTag s e0 = Inr (sl, e2)"
        by (auto simp: writeString_impl_def bind_res_def split: sum.splits)
      from wd [OF this] nextWritePos_fields [OF n] show ?thesis by auto
    qed
  qed
qed

text \<open>\<^verbatim>\<open>writeString\<close> and \<^verbatim>\<open>writeKey\<close> both write through \<^verbatim>\<open>_writeString\<close>.\<close>

lemma string_call:
  assumes "c = WriteString s \<or> c = WriteKey s" and "do_call c e = Inr e'"
  shows "\<exists>asKey sl e0 e1. writeString_impl s asKey e0 = Inr (sl, e1)
           \<and> out e0 = out e \<and> strings e0 = strings e \<and> uniqueStrings e0 = uniqueStrings e
           \<and> cur e0 = cur e \<and> out e' = out e1
           \<and> (\<forall>f. cur e1 = Some f \<longrightarrow> (\<exists>f'. cur e' = Some f' \<and> elems f' = elems f))
           \<and> (\<forall>p. string_offset e1 s = Some p \<longrightarrow> string_offset e' s = Some p)
           \<and> uniqueStrings e' = uniqueStrings e1"
  using assms(1)
proof
  assume c: "c = WriteString s"
  with assms(2) obtain sl where "writeString_impl s False e = Inr (sl, e')"
    by (auto simp: writeString_def bind_res_def split: sum.splits)
  then show ?thesis by blast
next
  assume c: "c = WriteKey s"
  with assms(2) obtain sl e1 where w: "writeString_impl s True (e\<lparr>blockedOnKey := False\<rparr>) = Inr (sl, e1)"
    and e': "e' = (if sortKeys e1 then upd_cur (\<lambda>f. f\<lparr>keys := keys f @ [sl]\<rparr>) e1 else e1)"
    by (auto simp: writeKey_def bind_res_def split: sum.splits if_splits option.splits)
  have "\<And>f. cur e1 = Some f \<Longrightarrow> \<exists>f'. cur e' = Some f' \<and> elems f' = elems f"
    unfolding e' by (auto simp: cur_upd_cur)
  moreover have "out e' = out e1" "uniqueStrings e' = uniqueStrings e1"
    "\<And>p. string_offset e1 s = Some p \<Longrightarrow> string_offset e' s = Some p"
    unfolding e' by (simp_all add: string_offset_def)
  ultimately show ?thesis
    using w by (intro exI [of _ True] exI [of _ sl] exI [of _ "e\<lparr>blockedOnKey := False\<rparr>"] exI [of _ e1]) simp
qed

lemma nextWritePos_out_cong:
  "out e0 = out e \<Longrightarrow> fst (nextWritePos e0) = fst (nextWritePos e)
     \<and> out (snd (nextWritePos e0)) = out (snd (nextWritePos e))"
  by (simp add: nextWritePos_def Let_def)

lemmas enc_defs = Encoder_eq beginArray_def push_def new_frame_def reset_frame_def
  writeString_def writeString_impl_def writeData_def writeValue_def writePointer_def
  addItem_def cur_def upd_cur_def nextWritePos_def bind_res_def value_pointer_def
  kNarrow_def kWide_def kMaxSharedStringSize_def set_tag_def slice_of_def Let_def
  PutUVarInt.simps writeNull_def value_inline_def kSpecialValueNull_def

text \<open>A string longer than \<^verbatim>\<open>kMaxSharedStringSize\<close> is written to the stream by every
  \<^verbatim>\<open>writeString\<close> and \<^verbatim>\<open>writeKey\<close>, header and bytes, whatever was written before.\<close>

lemma long_string_written_again:
  assumes "c = WriteString s \<or> c = WriteKey s" and "do_call c e = Inr e'"
    and "kMaxSharedStringSize < length s" and "kNarrow \<le> length s"
  shows "out e' = out (snd (nextWritePos e)) @ data_header kStringTag s @ s"
proof -
  from string_call [OF assms(1,2)] obtain asKey sl e0 e1 where
    w: "writeString_impl s asKey e0 = Inr (sl, e1)" and o0: "out e0 = out e" and o1: "out e' = out e1"
    by blast
  from assms(3) w have wd: "writeData kStringTag s e0 = Inr (sl, e1)"
    by (simp add: writeString_impl_def)
  from writeString_impl_cur [OF w] obtain f where f: "cur e0 = Some f" by blast
  from writeData_outline [OF wd assms(4) f] have "out e1 = out (snd (nextWritePos e0)) @ data_header kStringTag s @ s"
    by blast
  with o1 nextWritePos_out_cong [OF o0] show ?thesis by simp
qed

text \<open>
  C4, as the claim has it, fails for a string longer than \<^verbatim>\<open>kMaxSharedStringSize\<close>: with
  \<^verbatim>\<open>uniqueStrings\<close> on, a string of 16 bytes written twice into an array is written to
  the stream twice, header and payload.
\<close>

theorem string_written_twice_counterexample:
  "map_sum id out
     (do_calls [WriteString [0x61, 0x61, 0x61, 0x61, 0x61, 0x61, 0x61, 0x61,
                             0x61, 0x61, 0x61, 0x61, 0x61, 0x61, 0x61, 0x61],
                WriteString [0x61, 0x61, 0x61, 0x61, 0x61, 0x61, 0x61, 0x61,
                             0x61, 0x61, 0x61, 0x61, 0x61, 0x61, 0x61, 0x61]]
        (beginArray 0 (Encoder [])))
   = Inr ([0x4F, 0x10, 0x61, 0x61, 0x61, 0x61, 0x61, 0x61, 0x61, 0x61,
           0x61, 0x61, 0x61, 0x61, 0x61, 0x61, 0x61, 0x61]
          @ [0x4F, 0x10, 0x61, 0x61, 0x61, 0x61, 0x61, 0x61, 0x61, 0x61,
             0x61, 0x61, 0x61, 0x61, 0x61, 0x61, 0x61, 0x61])"
  by (simp add: enc_defs)

text \<open>
  C4, amended. With \<^verbatim>\<open>uniqueStrings\<close> on, let \<open>s\<close> be a string of at least \<^verbatim>\<open>kNarrow\<close>
  and at most \<^verbatim>\<open>kMaxSharedStringSize\<close> bytes that the string table does not hold yet.
  The first \<^verbatim>\<open>writeString\<close> or \<^verbatim>\<open>writeKey\<close> of \<open>s\<close> writes its header and its bytes at
  the next even position. After any further calls, a \<^verbatim>\<open>writeString\<close> or \<^verbatim>\<open>writeKey\<close>
  of \<open>s\<close> that returns writes nothing to the stream: it adds one item to the open frame,
  a pointer to the position of the first occurrence. The position is held as the string
  table holds it, \<^verbatim>\<open>(uint32_t)nextWritePos()\<close>: it is the position itself in any stream
  shorter than \<open>2 ^ 32\<close> bytes.
\<close>

theorem string_written_once:
  assumes guard: "uniqueStrings e" "kNarrow \<le> length s" "length s \<le> kMaxSharedStringSize"
    and c1: "c1 = WriteString s \<or> c1 = WriteKey s"
    and c2: "c2 = WriteString s \<or> c2 = WriteKey s"
    and new: "map_of (strings e) s = None"
    and first: "do_call c1 e = Inr e1"
    and between: "do_calls cs e1 = Inr e2"
    and again: "do_call c2 e2 = Inr e3"
  shows "out e1 = out (snd (nextWritePos e)) @ data_header kStringTag s @ s
       \<and> out e3 = out e2
       \<and> (\<exists>f2 f3 v. cur e2 = Some f2 \<and> cur e3 = Some f3 \<and> elems f3 = elems f2 @ [v]
              \<and> isPointer v \<and> pointerValue True v = length (out (snd (nextWritePos e))) mod 2 ^ 32)"
proof -
  from string_call [OF c1 first] obtain k sl a0 a1 where
    w1: "writeString_impl s k a0 = Inr (sl, a1)" and a0: "out a0 = out e" "strings a0 = strings e"
      "uniqueStrings a0 = uniqueStrings e" "cur a0 = cur e" and o1: "out e1 = out a1"
    and so1: "\<And>p. string_offset a1 s = Some p \<Longrightarrow> string_offset e1 s = Some p"
    and u1: "uniqueStrings e1 = uniqueStrings a1"
    by blast
  from writeString_impl_cur [OF w1] obtain f where f: "cur a0 = Some f" by blast
  from a0 guard new have g0: "uniqueStrings a0" "map_of (strings a0) s = None" by simp_all
  from string_first_write [OF w1 g0(1) guard(2,3) g0(2) f] nextWritePos_out_cong [OF a0(1)]
  have off: "string_offset a1 s = Some (fst (nextWritePos e) mod 2 ^ 32)"
    and out1: "out a1 = out (snd (nextWritePos e)) @ data_header kStringTag s @ s"
    and ua1: "uniqueStrings a1"
    by simp_all
  have "nextWritePos e = (fst (nextWritePos e), snd (nextWritePos e))" by simp
  from nextWritePos_fields [OF this]
  have pos: "fst (nextWritePos e) = length (out (snd (nextWritePos e)))" "even (fst (nextWritePos e))"
    by (blast, blast)
  from do_calls_keeps [OF between so1 [OF off]] u1 ua1
  have off2: "string_offset e2 s = Some (fst (nextWritePos e) mod 2 ^ 32)" and u2: "uniqueStrings e2"
    by simp_all
  from string_call [OF c2 again] obtain k' sl' b0 b1 where
    w2: "writeString_impl s k' b0 = Inr (sl', b1)" and b0: "out b0 = out e2" "strings b0 = strings e2"
      "uniqueStrings b0 = uniqueStrings e2" "cur b0 = cur e2" and o3: "out e3 = out b1"
    and c3: "\<And>f. cur b1 = Some f \<Longrightarrow> \<exists>f'. cur e3 = Some f' \<and> elems f' = elems f"
    by blast
  from writeString_impl_cur [OF w2] obtain f2 where f2: "cur b0 = Some f2" by blast
  from b0 off2 u2 have g2: "uniqueStrings b0" "string_offset b0 s = Some (fst (nextWritePos e) mod 2 ^ 32)"
    by (simp_all add: string_offset_def)
  have "(2 :: nat) dvd 2 ^ 32" by simp
  with pos(2) have "even (fst (nextWritePos e) mod 2 ^ 32)" by (simp only: dvd_mod_iff)
  moreover have "fst (nextWritePos e) mod 2 ^ 32 < 2 ^ 32" by simp
  ultimately have ev: "even (fst (nextWritePos e) mod 2 ^ 32)" "fst (nextWritePos e) mod 2 ^ 32 < 2 ^ 32"
    by blast+
  from string_later_write [OF w2 g2(1) guard(2,3) g2(2) f2 ev] obtain v where
    ob: "out b1 = out b0" and cb: "cur b1 = Some (f2\<lparr>elems := elems f2 @ [v]\<rparr>)"
    and pv: "isPointer v" "pointerValue True v = fst (nextWritePos e) mod 2 ^ 32"
    by blast
  from c3 [OF cb] obtain f3 where f3: "cur e3 = Some f3" "elems f3 = elems f2 @ [v]" by auto
  from f2 b0 have "cur e2 = Some f2" by simp
  with f3 pv pos o1 out1 o3 ob b0 show ?thesis by auto
qed

theorem string_written_once_witness:
  "\<exists>e1 e2 e3.
      uniqueStrings (beginArray 0 (Encoder [])) \<and> kNarrow \<le> length [0x78 :: byte, 0x78]
    \<and> length [0x78 :: byte, 0x78] \<le> kMaxSharedStringSize
    \<and> map_of (strings (beginArray 0 (Encoder []))) [0x78, 0x78] = None
    \<and> do_call (WriteString [0x78, 0x78]) (beginArray 0 (Encoder [])) = Inr e1
    \<and> do_calls [WriteNull] e1 = Inr e2
    \<and> do_call (WriteString [0x78, 0x78]) e2 = Inr e3
    \<and> out e1 = [0x42, 0x78, 0x78] \<and> out e3 = out e2"
proof -
  let ?e = "beginArray 0 (Encoder [])"
  let ?s = "[0x78 :: byte, 0x78]"
  have "\<exists>e1. do_call (WriteString ?s) ?e = Inr e1
          \<and> (\<exists>e2. do_calls [WriteNull] e1 = Inr e2 \<and> (\<exists>e3. do_call (WriteString ?s) e2 = Inr e3))"
    by (simp add: enc_defs)
  then obtain e1 e2 e3 where h1: "do_call (WriteString ?s) ?e = Inr e1"
    and h2: "do_calls [WriteNull] e1 = Inr e2" and h3: "do_call (WriteString ?s) e2 = Inr e3"
    by blast
  have g: "uniqueStrings ?e" "kNarrow \<le> length ?s" "length ?s \<le> kMaxSharedStringSize"
    "map_of (strings ?e) ?s = None"
    by (simp_all add: enc_defs)
  have c: "WriteString ?s = WriteString ?s \<or> WriteString ?s = WriteKey ?s" by simp
  have o: "out (snd (nextWritePos ?e)) @ data_header kStringTag ?s @ ?s = [0x42, 0x78, 0x78]"
    by (simp add: enc_defs data_header_def)
  from string_written_once [OF g(1-3) c c g(4) h1 h2 h3] o
  have "out e1 = [0x42, 0x78, 0x78] \<and> out e3 = out e2" by simp
  with g h1 h2 h3 show ?thesis by blast
qed

subsection \<open>Sorted dictionaries\<close>

lemma compare_le: "compare a b \<le> 0 \<longleftrightarrow> a \<le> b"
  by (induction a b rule: compare.induct) auto

lemma qsort_insert_insort:
  "qsort_insert (compareKeysByIndex ks) x xs = insort_key (\<lambda>i. slice_bytes (ks ! i)) x xs"
  by (induction xs) (simp_all add: compareKeysByIndex_def compare_le)

lemma qsort_sort_key:
  "qsort (compareKeysByIndex ks) xs = sort_key (\<lambda>i. slice_bytes (ks ! i)) xs"
  by (induction xs) (simp_all add: qsort_def qsort_insert_insort)

lemma pairs_in_order:
  "length xs = 2 * n \<Longrightarrow> concat (map (\<lambda>j. [xs ! (2 * j), xs ! (2 * j + 1)]) [0..<n]) = xs"
proof (induction n arbitrary: xs)
  case 0
  then show ?case by simp
next
  case (Suc n)
  let ?ys = "take (2 * n) xs"
  from Suc.prems have l: "length ?ys = 2 * n" by simp
  have m: "map (\<lambda>j. [xs ! (2 * j), xs ! (2 * j + 1)]) [0..<n]
        = map (\<lambda>j. [?ys ! (2 * j), ?ys ! (2 * j + 1)]) [0..<n]"
    by simp
  have "concat (map (\<lambda>j. [xs ! (2 * j), xs ! (2 * j + 1)]) [0..<n]) = ?ys"
    unfolding m by (rule Suc.IH [OF l])
  moreover have "xs = ?ys @ [xs ! (2 * n), xs ! (2 * n + 1)]"
  proof -
    from Suc.prems have a: "2 * n < length xs" and b: "Suc (2 * n) < length xs" by simp_all
    from Suc.prems have "xs = take (Suc (Suc (2 * n))) xs" by simp
    also have "\<dots> = take (Suc (2 * n)) xs @ [xs ! Suc (2 * n)]" by (rule take_Suc_conv_app_nth [OF b])
    also have "take (Suc (2 * n)) xs = ?ys @ [xs ! (2 * n)]" by (rule take_Suc_conv_app_nth [OF a])
    finally show ?thesis by simp
  qed
  ultimately show ?case by simp
qed

lemma sortDict_pairs:
  assumes "length (elems f) = 2 * length (keys f)"
  shows "\<exists>f1. sortDict f = Inr f1 \<and> tag f1 = tag f \<and> wide f1 = wide f
           \<and> elems f1 = concat (map (\<lambda>j. [elems f ! (2 * j), elems f ! (2 * j + 1)])
                                    (sort_key (\<lambda>i. slice_bytes (resolve_keys f ! i)) [0..<length (keys f)]))"
proof (cases "length (keys f) < 2")
  case True
  then have "length (keys f) = 0 \<or> length (keys f) = 1" by arith
  then have "sort_key (\<lambda>i. slice_bytes (resolve_keys f ! i)) [0..<length (keys f)] = [0..<length (keys f)]"
    by auto
  with True pairs_in_order [OF assms] show ?thesis by (simp add: sortDict_def)
next
  case False
  with assms show ?thesis by (simp add: sortDict_def Let_def qsort_sort_key)
qed

lemma checkPointerWidths_frame:
  assumes "checkPointerWidths f e = (f2, e2)"
  shows "elems f2 = elems f \<and> tag f2 = tag f \<and> (\<exists>pad. out e2 = out e @ pad)"
  using assms by (auto simp: checkPointerWidths_def nextWritePos_def Let_def split: if_splits)

lemma fixPointers_loop_ok:
  assumes "\<forall>v \<in> set vs. isPointer v \<longrightarrow> pointerValue True v < base"
  shows "\<exists>ws. fixPointers_loop base w vs = Inr ws"
  using assms
proof (induction vs arbitrary: base)
  case Nil
  show ?case by simp
next
  case (Cons v vs)
  from Cons.prems have "\<forall>u \<in> set vs. isPointer u \<longrightarrow> pointerValue True u < base + w" by auto
  from Cons.IH [OF this] obtain ws where "fixPointers_loop (base + w) w vs = Inr ws" by blast
  with Cons.prems show ?case by (simp add: bind_res_def Let_def)
qed

lemma even_length_collection_header: "even (length (collection_header c w))"
  by (simp add: collection_header_def Let_def)

lemma pairs_subset:
  assumes "length xs = 2 * n" and "set p \<subseteq> {0..<n}"
  shows "set (concat (map (\<lambda>j. [xs ! (2 * j), xs ! (2 * j + 1)]) p)) \<subseteq> set xs"
proof -
  have "xs ! (2 * j) \<in> set xs \<and> xs ! (2 * j + 1) \<in> set xs" if "j \<in> set p" for j
  proof -
    from that assms(2) have "j < n" by auto
    with assms(1) show ?thesis by simp
  qed
  then show ?thesis by auto
qed

lemma nextWritePos_pad:
  "nextWritePos e = (length (out e) + (if odd (length (out e)) then 1 else 0),
                     if odd (length (out e)) then e\<lparr>out := out e @ [0]\<rparr> else e)"
  by (simp add: nextWritePos_def Let_def)

lemma nextWritePos_even_out: "even (length (out e)) \<Longrightarrow> nextWritePos e = (length (out e), e)"
  by (simp add: nextWritePos_def Let_def)

lemma addItem_frame:
  assumes "addItem v e = Inr e'" and "cur e = Some f"
  shows "cur e' = Some (f\<lparr>elems := elems f @ [v]\<rparr>) \<and> sortKeys e' = sortKeys e"
  using addItem_Inr [OF assms(1)] assms(2) by auto

lemma writeValue_frame:
  assumes "writeValue t b c e = Inr e'" and "cur e = Some f"
  shows "\<exists>v f'. cur e' = Some f' \<and> elems f' = elems f @ [v] \<and> keys f' = keys f
           \<and> sortKeys e' = sortKeys e
           \<and> (c \<and> length b \<le> 4 \<longrightarrow> value_bytes v = set_tag t b @ replicate (4 - length b) 0)"
proof (cases "c \<and> length b \<le> 4")
  case True
  let ?p = "set_tag t b @ replicate (4 - length b) 0"
  let ?v = "Value (?p ! 0) (?p ! 1) (?p ! 2) (?p ! 3)"
  from assms(1) True obtain e1 where a: "addItem ?v e = Inr e1"
    and e': "e' = (if length b > 2 then upd_cur (\<lambda>f. f\<lparr>wide := True\<rparr>) e1 else e1)"
    by (auto simp: writeValue_def Let_def bind_res_def set_tag_def split: sum.splits)
  from addItem_frame [OF a assms(2)] have c1: "cur e1 = Some (f\<lparr>elems := elems f @ [?v]\<rparr>)"
    and s1: "sortKeys e1 = sortKeys e" by simp_all
  from True have "length ?p = 4" by simp
  then have vb: "value_bytes ?v = ?p" unfolding value_bytes_def value_t.sel by (rule list4)
  from c1 have "cur e' = Some (if length b > 2 then f\<lparr>elems := elems f @ [?v], wide := True\<rparr>
                               else f\<lparr>elems := elems f @ [?v]\<rparr>)"
    unfolding e' by (auto simp: cur_def upd_cur_def split: if_splits)
  with vb s1 e' show ?thesis by (auto simp: upd_cur_def)
next
  case False
  obtain pos e1 where n: "nextWritePos e = (pos, e1)" by (cases "nextWritePos e")
  from assms(1) False n obtain e2 where w: "writePointer pos e1 = Inr e2"
    and e': "e' = e2\<lparr>out := out e2 @ set_tag t b\<rparr>"
    by (auto simp: writeValue_def Let_def bind_res_def set_tag_def split: sum.splits)
  from w obtain v where a: "addItem v e1 = Inr e2"
    by (auto simp: writePointer_def bind_res_def split: sum.splits)
  from nextWritePos_fields [OF n] assms(2) have c1: "cur e1 = Some f" and s1: "sortKeys e1 = sortKeys e"
    by simp_all
  from addItem_frame [OF a c1] have "cur e' = Some (f\<lparr>elems := elems f @ [v]\<rparr>)" "sortKeys e' = sortKeys e1"
    unfolding e' by (simp_all add: cur_out_update)
  with s1 False show ?thesis by auto
qed

lemma writeData_frame:
  assumes "writeData t s e = Inr (sl, e')" and "cur e = Some f"
  shows "\<exists>v f'. cur e' = Some f' \<and> elems f' = elems f @ [v] \<and> keys f' = keys f
           \<and> sortKeys e' = sortKeys e
           \<and> (if length s < kNarrow
                then sl = \<lparr>buf = None, size_of = length s\<rparr> \<and> take (length s) (drop 1 (value_bytes v)) = s
                else sl = slice_of s)"
proof (cases "length s < kNarrow")
  case True
  let ?b = "(of_nat (min (length s) 0xF) :: byte) # s"
  from assms(1) True obtain e1 where w: "writeValue t ?b True e = Inr e1"
    and r: "sl = \<lparr>buf = None, size_of = length s\<rparr>" "e' = e1"
    by (auto simp: writeData_def Let_def bind_res_def split: sum.splits)
  from True have l: "length ?b \<le> 4" by (simp add: kNarrow_def)
  from writeValue_frame [OF w assms(2)] l obtain v f' where
    c: "cur e1 = Some f'" "elems f' = elems f @ [v]" "keys f' = keys f" "sortKeys e1 = sortKeys e"
    and vb: "value_bytes v = set_tag t ?b @ replicate (4 - length ?b) 0"
    by blast
  from vb have "take (length s) (drop 1 (value_bytes v)) = s" by (simp add: set_tag_def)
  with c r True show ?thesis by auto
next
  case False
  let ?b = "[of_nat (min (length s) 0xF) :: byte] @ (if length s \<ge> 0x0F then PutUVarInt (length s) else [])
                @ (if length s = 0 then [0] else [])"
  from assms(1) False obtain e1 where w: "writeValue t ?b False e = Inr e1"
    and r: "e' = e1\<lparr>out := out e1 @ s\<rparr>" "sl = slice_of s"
    by (auto simp: writeData_def Let_def bind_res_def split: sum.splits if_splits)
  from writeValue_frame [OF w assms(2)] r False show ?thesis by auto
qed

lemma writeString_impl_frame:
  assumes "writeString_impl s asKey e = Inr (sl, e')" and "cur e = Some f"
  shows "\<exists>v f'. cur e' = Some f' \<and> elems f' = elems f @ [v] \<and> keys f' = keys f
           \<and> sortKeys e' = sortKeys e
           \<and> (if length s < kNarrow
                then sl = \<lparr>buf = None, size_of = length s\<rparr> \<and> take (length s) (drop 1 (value_bytes v)) = s
                else sl = slice_of s)"
proof (cases "uniqueStrings e \<and> length s \<ge> kNarrow \<and> length s \<le> kMaxSharedStringSize")
  case False
  with assms(1) have "writeData kStringTag s e = Inr (sl, e')" by (auto simp: writeString_impl_def)
  from writeData_frame [OF this assms(2)] show ?thesis .
next
  case guard: True
  show ?thesis
  proof (cases "map_of (strings e) s")
    case (Some entry)
    with assms(1) guard obtain e2 where wp: "writePointer (offset entry) e = Inr e2"
      and r: "sl = slice_of s" "cur e' = cur e2" "sortKeys e' = sortKeys e2"
      by (auto simp: writeString_impl_def bind_res_def split: sum.splits if_splits)
    from wp obtain v where a: "addItem v e = Inr e2"
      by (auto simp: writePointer_def bind_res_def split: sum.splits)
    from addItem_frame [OF a assms(2)] r guard show ?thesis by auto
  next
    case None
    obtain pos e0 where n: "nextWritePos e = (pos, e0)" by (cases "nextWritePos e")
    with assms(1) guard None obtain e2 where wd: "writeData kStringTag s e0 = Inr (sl, e2)"
      and r: "cur e' = cur e2" "sortKeys e' = sortKeys e2"
      by (auto simp: writeString_impl_def bind_res_def split: sum.splits option.splits)
    from nextWritePos_fields [OF n] assms(2) have "cur e0 = Some f" "sortKeys e0 = sortKeys e" by simp_all
    with writeData_frame [OF wd] r show ?thesis by auto
  qed
qed

text \<open>What \<^verbatim>\<open>writeKey\<close> records for \<^verbatim>\<open>sortDict\<close>: one more item and one more key slice,
  whose bytes, as \<^verbatim>\<open>sortDict\<close> reads them, are the bytes of the key.\<close>

lemma writeKey_records:
  assumes "writeKey s e = Inr e'" and "cur e = Some f" and "sortKeys e"
    and "length (elems f) = 2 * length (keys f)"
  shows "\<exists>v sl f'. cur e' = Some f' \<and> elems f' = elems f @ [v] \<and> keys f' = keys f @ [sl]
           \<and> slice_bytes (resolve_keys f' ! length (keys f)) = s"
proof -
  from assms(1) obtain sl e1 where
    ws: "writeString_impl s True (e\<lparr>blockedOnKey := False\<rparr>) = Inr (sl, e1)"
    and e': "e' = (if sortKeys e1 then upd_cur (\<lambda>f. f\<lparr>keys := keys f @ [sl]\<rparr>) e1 else e1)"
    by (auto simp: writeKey_def bind_res_def split: if_splits sum.splits option.splits)
  from assms(2) have c0: "cur (e\<lparr>blockedOnKey := False\<rparr>) = Some f" by simp
  from writeString_impl_frame [OF ws c0] assms(3) obtain v f1 where
    c1: "cur e1 = Some f1" and f1: "elems f1 = elems f @ [v]" "keys f1 = keys f" and s1: "sortKeys e1"
    and sl: "if length s < kNarrow
             then sl = \<lparr>buf = None, size_of = length s\<rparr> \<and> take (length s) (drop 1 (value_bytes v)) = s
             else sl = slice_of s"
    by auto
  let ?f' = "f1\<lparr>keys := keys f1 @ [sl]\<rparr>"
  from e' s1 cur_upd_cur [OF c1] have c': "cur e' = Some ?f'" by simp
  let ?n = "length (keys f)"
  have lv: "length (concat (map value_bytes (elems f))) = 4 * (2 * ?n)"
    by (simp add: length_concat comp_def value_bytes_def sum_list_triv assms(4))
  have "slice_bytes (resolve_keys ?f' ! ?n) = s"
  proof (cases "length s < kNarrow")
    case True
    with sl have "sl = \<lparr>buf = None, size_of = length s\<rparr>"
      and t: "take (length s) (drop 1 (value_bytes v)) = s" by simp_all
    then show ?thesis
      by (simp add: resolve_keys_def f1 nth_append slice_bytes_def lv drop_Suc [symmetric] del: upt_Suc)
  next
    case False
    with sl have "sl = slice_of s" by simp
    then show ?thesis by (simp add: resolve_keys_def f1 nth_append slice_bytes_def slice_of_def del: upt_Suc)
  qed
  with c' f1 show ?thesis by auto
qed

text \<open>
  C1. Let the open frame \<open>f\<close> of an encoder with \<^verbatim>\<open>sortKeys\<close> on be a dictionary, opened
  inside another frame, that waits for a key, holds a key slice for each of its pairs of
  items, as \<^verbatim>\<open>writeKey\<close> records them, with pairwise distinct key bytes, fewer than
  \<open>2 ^ 32\<close> items, and pointers that lead back into the stream. Then \<^verbatim>\<open>endDictionary\<close>
  returns, and what it appends to the stream is the padding to an even position, the
  header of the dictionary unless it is empty, and the element words: the pairs of items
  of the frame in an order \<open>p\<close> along which the bytes of the keys ascend strictly in the
  unsigned byte-lexicographic order, each pointer among them turned into an offset of the
  frame's width by \<^verbatim>\<open>fixPointers\<close>. There is one such order, whatever the order of the
  pairs in the frame.
\<close>

theorem sorted_dictionary:
  assumes flags: "sortKeys e" "writingKey e"
    and frame: "cur e = Some f" "tag f = kDictTag" "2 \<le> stackDepth e"
    and pairs: "length (elems f) = 2 * length (keys f)" "length (elems f) < 2 ^ 32"
    and uniq: "distinct (map slice_bytes (resolve_keys f))"
    and behind: "\<forall>v \<in> set (elems f). isPointer v \<longrightarrow> pointerValue True v < length (out e)"
  shows "\<exists>e' p w ws.
           endDictionary e = Inr e'
         \<and> distinct p \<and> set p = {0..<length (keys f)}
         \<and> sorted_wrt (<) (map (\<lambda>j. slice_bytes (resolve_keys f ! j)) p)
         \<and> (w = kNarrow \<or> w = kWide)
         \<and> (let pad = (if odd (length (out e)) then [0] else []);
                 hdr = (if keys f = [] then []
                        else set_tag kDictTag (collection_header (length (keys f)) (w = kWide)))
             in fixPointers_loop (length (out e @ pad @ hdr)) w
                  (concat (map (\<lambda>j. [elems f ! (2 * j), elems f ! (2 * j + 1)]) p)) = Inr ws
              \<and> out e' = out e @ pad @ hdr
                           @ concat (map (if w = kWide then value_bytes else narrow_bytes) ws))"
proof -
  let ?n = "length (keys f)"
  let ?key = "\<lambda>i. slice_bytes (resolve_keys f ! i)"
  let ?p = "sort_key ?key [0..<?n]"
  let ?S = "concat (map (\<lambda>j. [elems f ! (2 * j), elems f ! (2 * j + 1)]) ?p)"
  let ?pad = "if odd (length (out e)) then [0 :: byte] else []"
  let ?e1 = "e\<lparr>stackDepth := stackDepth e - 1, writingKey := False, blockedOnKey := False\<rparr>"
  from frame(1) have d: "stackDepth e \<le> length (stack e)" and ff: "stack e ! (stackDepth e - 1) = f"
    by (auto simp: cur_def split: if_splits)
  let ?g = "stack e ! (stackDepth e - 2)"
  from frame(3) d have c1: "cur ?e1 = Some ?g"
    by (auto simp: cur_def diff_diff_left intro!: arg_cong [where f = "nth (stack e)"])
  \<comment> \<open>the sort\<close>
  from sortDict_pairs [OF pairs(1)] obtain f1 where
    sd: "sortDict f = Inr f1" and f1: "tag f1 = tag f" "wide f1 = wide f" "elems f1 = ?S"
    by blast
  have lS: "length ?S = 2 * ?n"
    by (simp add: length_concat comp_def sum_list_triv)
  have sub: "set ?S \<subseteq> set (elems f)"
    by (rule pairs_subset [OF pairs(1)]) simp
  \<comment> \<open>the width\<close>
  obtain f2 e2 where cp: "checkPointerWidths f1 ?e1 = (f2, e2)" by (cases "checkPointerWidths f1 ?e1")
  let ?w = "if wide f2 then kWide else kNarrow"
  have k: "kWide \<noteq> kNarrow" by (simp add: kWide_def kNarrow_def)
  from checkPointerWidths_frame [OF cp] f1 frame(2) have f2: "elems f2 = ?S" "tag f2 = kDictTag"
    by simp_all
  from cp c1 have e2: "cur e2 = Some ?g" "\<not> blockedOnKey e2" "stackDepth e2 = stackDepth e - 1"
    and o2: "out (snd (nextWritePos e2)) = out e @ ?pad" "fst (nextWritePos e2) = length (out e @ ?pad)"
    by (auto simp: checkPointerWidths_def nextWritePos_def Let_def cur_def split: if_splits)
  have cnt: "length (elems f2) mod 2 ^ 32 div 2 = ?n"
  proof -
    from pairs have "2 * ?n < 2 ^ 32" by simp
    then have "2 * ?n mod 2 ^ 32 = 2 * ?n" by (rule mod_less)
    with lS f2 show ?thesis by simp
  qed
  let ?hb = "collection_header ?n (wide f2)"
  \<comment> \<open>the header\<close>
  have "\<exists>e3. writeValue kDictTag ?hb (?n = 0) e2 = Inr e3
          \<and> out (snd (nextWritePos e3))
               = out e @ ?pad @ (if ?n = 0 then [] else set_tag kDictTag ?hb)
          \<and> fst (nextWritePos e3) = length (out e @ ?pad @ (if ?n = 0 then [] else set_tag kDictTag ?hb))"
  proof (cases "?n = 0")
    case True
    have l: "length ?hb \<le> 4" using True by (simp add: collection_header_def Let_def)
    from writeValue_inline_ok [OF l e2(1,2), of kDictTag] obtain e3 where
      w: "writeValue kDictTag ?hb True e2 = Inr e3" and o: "out e3 = out e2" by blast
    from o o2 have "out (snd (nextWritePos e3)) = out e @ ?pad"
      "fst (nextWritePos e3) = length (out e @ ?pad)"
      by (auto simp: nextWritePos_def Let_def split: if_splits)
    then show ?thesis using w True by auto
  next
    case False
    then have ni: "\<not> ((?n = 0) \<and> length ?hb \<le> 4)" by simp
    from writeValue_outline_ok [OF ni e2(1,2), of kDictTag] obtain e3 where
      w: "writeValue kDictTag ?hb (?n = 0) e2 = Inr e3"
      and o: "out e3 = out (snd (nextWritePos e2)) @ set_tag kDictTag ?hb" by blast
    have "even (length (out e @ ?pad))" by simp
    with o o2 even_length_collection_header [of ?n "wide f2"]
    have "even (length (out e3))" by simp
    from nextWritePos_even_out [OF this] o o2 w False show ?thesis by auto
  qed
  then obtain e3 where wv: "writeValue kDictTag ?hb (?n = 0) e2 = Inr e3"
    and o3: "out (snd (nextWritePos e3)) = out e @ ?pad @ (if ?n = 0 then [] else set_tag kDictTag ?hb)"
    and b3: "fst (nextWritePos e3) = length (out e @ ?pad @ (if ?n = 0 then [] else set_tag kDictTag ?hb))"
    by blast
  let ?hdr = "if ?n = 0 then [] else set_tag kDictTag ?hb"
  let ?base = "length (out e @ ?pad @ ?hdr)"
  \<comment> \<open>the pointers\<close>
  have "\<forall>v \<in> set ?S. isPointer v \<longrightarrow> pointerValue True v < ?base"
  proof (intro ballI impI)
    fix v assume "v \<in> set ?S" and "isPointer v"
    with sub behind have "pointerValue True v < length (out e)" by blast
    then show "pointerValue True v < ?base" by simp
  qed
  from fixPointers_loop_ok [OF this, of ?w] obtain ws where
    loop: "fixPointers_loop ?base ?w ?S = Inr ws" by blast
  obtain base e4 where n4: "nextWritePos e3 = (base, e4)" by (cases "nextWritePos e3")
  with o3 b3 have e4: "out e4 = out e @ ?pad @ ?hdr" "base = ?base" by simp_all
  from loop f2 n4 e4 have fp: "fixPointers f2 e3 = Inr (f2\<lparr>elems := ws\<rparr>, e4)"
    by (simp add: fixPointers_def bind_res_def)
  have empty: "ws = []" if "?n = 0"
    using loop lS that by simp
  \<comment> \<open>the call\<close>
  let ?body = "concat (map (if wide f2 then value_bytes else narrow_bytes) ws)"
  let ?e5 = "if 0 < ?n then e4\<lparr>out := out e4 @ ?body\<rparr> else e4"
  let ?e' = "?e5\<lparr>stack := (stack ?e5)[stackDepth e - 1 := f2\<lparr>elems := ws, elems := []\<rparr>]\<rparr>"
  have call: "endDictionary e = Inr ?e'"
    using flags frame(1,2) sd cp wv fp cnt f2(2)
    by (simp add: endDictionary_def endCollection_def bind_res_def Let_def)
  have o': "out ?e' = out e @ ?pad @ ?hdr @ ?body"
    using e4 empty by auto
  \<comment> \<open>the order\<close>
  have idx: "map ?key [0..<?n] = map slice_bytes (resolve_keys f)"
  proof -
    have "length (resolve_keys f) = ?n" by (simp add: resolve_keys_def)
    with map_nth [of "resolve_keys f"] have "map (\<lambda>i. resolve_keys f ! i) [0..<?n] = resolve_keys f"
      by simp
    then have "map slice_bytes (map (\<lambda>i. resolve_keys f ! i) [0..<?n]) = map slice_bytes (resolve_keys f)"
      by (rule arg_cong)
    then show ?thesis by (simp only: map_map comp_def)
  qed
  have dk: "distinct (map ?key ?p)"
  proof -
    from uniq idx have "distinct (map ?key [0..<?n])" by simp
    then have "inj_on ?key (set [0..<?n])" by (simp add: distinct_map)
    then show ?thesis by (simp add: distinct_map)
  qed
  have "sorted (map ?key ?p)" by (rule sorted_sort_key)
  with dk have s: "sorted_wrt (<) (map ?key ?p)" by (simp add: strict_sorted_iff)
  have wk: "(?w = kWide) = wide f2" using k by simp
  have hd: "(if keys f = [] then [] else set_tag kDictTag (collection_header ?n (?w = kWide))) = ?hdr"
    unfolding wk by simp
  have bt: "(if ?w = kWide then value_bytes else narrow_bytes) = (if wide f2 then value_bytes else narrow_bytes)"
    using k by simp
  show ?thesis
    apply (intro exI [of _ ?e'] exI [of _ ?p] exI [of _ ?w] exI [of _ ws])
    unfolding Let_def hd bt
    using call s loop o' by simp
qed

lemmas dict_defs = enc_defs do_call.simps do_calls.simps beginDictionary_def writeKey_def
  writeBool_def kSpecialValueTrue_def endDictionary_def endCollection_def sortDict_def resolve_keys_def
  qsort_def compareKeysByIndex_def slice_bytes_def checkPointerWidths_def collection_header_def
  fixPointers_def isPointer_def pointerValue_def value_bytes_def narrow_bytes_def size_t_sub_def

theorem sorted_dictionary_witness:
  "\<exists>e f e' p w ws.
      do_calls [WriteKey [0x62], WriteBool True, WriteKey [0x61, 0x61], WriteNull]
        (beginDictionary 0 (Encoder [])) = Inr e
    \<and> sortKeys e \<and> writingKey e \<and> cur e = Some f \<and> tag f = kDictTag \<and> 2 \<le> stackDepth e
    \<and> length (elems f) = 2 * length (keys f) \<and> length (elems f) < 2 ^ 32
    \<and> distinct (map slice_bytes (resolve_keys f))
    \<and> (\<forall>v \<in> set (elems f). isPointer v \<longrightarrow> pointerValue True v < length (out e))
    \<and> endDictionary e = Inr e'
    \<and> distinct p \<and> set p = {0..<length (keys f)}
    \<and> sorted_wrt (<) (map (\<lambda>j. slice_bytes (resolve_keys f ! j)) p)
    \<and> (w = kNarrow \<or> w = kWide)
    \<and> (let pad = (if odd (length (out e)) then [0] else []);
            hdr = (if keys f = [] then []
                   else set_tag kDictTag (collection_header (length (keys f)) (w = kWide)))
        in fixPointers_loop (length (out e @ pad @ hdr)) w
             (concat (map (\<lambda>j. [elems f ! (2 * j), elems f ! (2 * j + 1)]) p)) = Inr ws
         \<and> out e' = out e @ pad @ hdr
                      @ concat (map (if w = kWide then value_bytes else narrow_bytes) ws))
    \<and> out e' = [0x42, 0x61, 0x61, 0x00, 0x70, 0x02, 0x80, 0x03, 0x30, 0x00, 0x41, 0x62, 0x33, 0x00]"
proof -
  let ?f = "\<lparr>elems = [Value 0x41 0x62 0 0, Value 0x33 0 0 0, Value 0x80 0 0 0, Value 0x30 0 0 0],
             tag = kDictTag, wide = False,
             keys = [\<lparr>buf = None, size_of = 1\<rparr>, \<lparr>buf = Some [0x61, 0x61], size_of = 2\<rparr>]\<rparr>"
  let ?e = "\<lparr>out = [0x42, 0x61, 0x61],
             stack = [\<lparr>elems = [], tag = kSpecialTag, wide = False, keys = []\<rparr>, ?f],
             stackDepth = 2, strings = [([0x61, 0x61], \<lparr>offset = 0, usedAsKey = True\<rparr>)],
             uniqueStrings = True, sortKeys = True, writingKey = True, blockedOnKey = True\<rparr>"
  have h1: "do_calls [WriteKey [0x62], WriteBool True, WriteKey [0x61, 0x61], WriteNull]
              (beginDictionary 0 (Encoder [])) = Inr ?e"
    by (simp add: dict_defs)
  have h2: "sortKeys ?e" "writingKey ?e" "cur ?e = Some ?f" "tag ?f = kDictTag" "2 \<le> stackDepth ?e"
    "length (elems ?f) = 2 * length (keys ?f)" "length (elems ?f) < 2 ^ 32"
    by (simp_all add: cur_def)
  have h3: "distinct (map slice_bytes (resolve_keys ?f))"
    by (simp add: resolve_keys_def slice_bytes_def value_bytes_def)
  have h4: "\<forall>v \<in> set (elems ?f). isPointer v \<longrightarrow> pointerValue True v < length (out ?e)"
    by (simp add: isPointer_def pointerValue_def)
  have h5: "map_sum id out (endDictionary ?e)
              = Inr [0x42, 0x61, 0x61, 0x00, 0x70, 0x02, 0x80, 0x03, 0x30, 0x00, 0x41, 0x62, 0x33, 0x00]"
    by (simp add: dict_defs)
  from sorted_dictionary [OF h2 h3 h4] obtain e' p w ws where
    r: "endDictionary ?e = Inr e'" "distinct p" "set p = {0..<length (keys ?f)}"
      "sorted_wrt (<) (map (\<lambda>j. slice_bytes (resolve_keys ?f ! j)) p)" "w = kNarrow \<or> w = kWide"
      "let pad = (if odd (length (out ?e)) then [0] else []);
            hdr = (if keys ?f = [] then []
                   else set_tag kDictTag (collection_header (length (keys ?f)) (w = kWide)))
        in fixPointers_loop (length (out ?e @ pad @ hdr)) w
             (concat (map (\<lambda>j. [elems ?f ! (2 * j), elems ?f ! (2 * j + 1)]) p)) = Inr ws
         \<and> out e' = out ?e @ pad @ hdr
                      @ concat (map (if w = kWide then value_bytes else narrow_bytes) ws)"
    by blast
  from h5 r(1) have o: "out e' = [0x42, 0x61, 0x61, 0x00, 0x70, 0x02, 0x80, 0x03, 0x30, 0x00, 0x41, 0x62, 0x33, 0x00]"
    by simp
  from h1 h2 h3 h4 r o show ?thesis by blast
qed

section \<open>Properties of the hash array mapped trie\<close>

subsection \<open>Bitmaps\<close>

lemma hasChild_bit: "hasChild bm i \<longleftrightarrow> bit bm i"
  unfolding hasChild_def push_bit_of_1 by (metis and_exp_eq_0_iff_not_bit)

lemma childBitNumber_less: "childBitNumber h s < 64"
proof -
  have "drop_bit s h AND 63 \<le> (63 :: hash_t)" by (rule word_and_le1)
  then have "unat (drop_bit s h AND 63) \<le> unat (63 :: hash_t)" by (simp add: word_le_nat_alt)
  then show ?thesis by (simp add: childBitNumber_def kMaxChildren_def kBitShift_def)
qed

lemma filter_less_upt: "b \<le> n \<Longrightarrow> filter (\<lambda>j. j < b) [0..<n] = [0..<b]"
proof (induction n)
  case 0
  then show ?case by simp
next
  case (Suc n)
  show ?case
  proof (cases "b = Suc n")
    case True
    then show ?thesis by (simp add: filter_id_conv)
  next
    case False
    with Suc show ?thesis by simp
  qed
qed

lemma childIndex_eq:
  assumes "b < 64"
  shows "childIndexForBitNumber bm b = length (filter (bit bm) [0..<b])"
proof -
  have m: "push_bit b 1 - 1 = (mask b :: bitmap_t)" by (simp add: mask_eq_exp_minus_1)
  have "filter (bit (bm AND (push_bit b 1 - 1))) [0..<64] = filter (\<lambda>j. j < b \<and> bit bm j) [0..<64]"
    unfolding m by (rule filter_cong) (auto simp: bit_and_iff bit_mask_iff)
  also have "\<dots> = filter (bit bm) (filter (\<lambda>j. j < b) [0..<64])" by (simp add: conj_commute)
  also have "\<dots> = filter (bit bm) [0..<b]" using assms by (simp add: filter_less_upt)
  finally show ?thesis by (simp add: childIndexForBitNumber_def pop_count_def)
qed

lemma bit_set_slot:
  "b < 64 \<Longrightarrow> bit (bm OR push_bit b 1 :: bitmap_t) j \<longleftrightarrow> bit bm j \<or> j = b"
  by (auto simp: bit_or_iff push_bit_of_1 bit_exp_iff)

lemma bit_clear_slot:
  "bit (bm AND NOT (push_bit b 1) :: bitmap_t) j \<longleftrightarrow> bit bm j \<and> j \<noteq> b"
  by (auto simp: bit_and_iff bit_not_iff push_bit_of_1 bit_exp_iff dest: bit_imp_le_length)

lemma bit_set_slot':
  "b < 64 \<Longrightarrow> bit (bm OR 2 ^ b :: bitmap_t) j \<longleftrightarrow> bit bm j \<or> j = b"
  using bit_set_slot [of b bm j] by (simp add: push_bit_of_1)

lemma bit_clear_slot':
  "bit (bm AND NOT (2 ^ b) :: bitmap_t) j \<longleftrightarrow> bit bm j \<and> j \<noteq> b"
  using bit_clear_slot [of bm b j] by (simp add: push_bit_of_1)

lemma pop_count_0_iff: "pop_count bm = 0 \<longleftrightarrow> bm = 0"
proof
  assume "pop_count bm = 0"
  then have "\<forall>j < 64. \<not> bit bm j" by (auto simp: pop_count_def filter_empty_conv)
  moreover have "\<not> bit bm j" if "\<not> j < 64" for j
    using that bit_imp_le_length [of bm j] by auto
  ultimately have "\<forall>j. \<not> bit bm j" by blast
  then show "bm = 0" by (simp add: bit_eq_iff)
next
  assume "bm = 0"
  then show "pop_count bm = 0" by (simp add: pop_count_def)
qed


subsection \<open>The children of an interior node, by slice\<close>

lemma slots_split:
  assumes "b < 64"
  shows "slots bm = filter (bit bm) [0..<b] @ (if bit bm b then [b] else []) @ filter (bit bm) [Suc b..<64]"
proof -
  from assms have "[0..<64] = [0..<b] @ b # [Suc b..<64]"
    by (metis le_add_diff_inverse less_imp_le_nat upt_add_eq_append upt_conv_Cons zero_le)
  then show ?thesis by (simp add: slots_def)
qed

lemma length_slots [simp]: "length (slots bm) = pop_count bm"
  by (simp add: slots_def pop_count_def)

lemma slots_set_bit:
  assumes "b < 64" and "\<not> bit bm b"
  shows "slots (bm OR push_bit b 1) = filter (bit bm) [0..<b] @ b # filter (bit bm) [Suc b..<64]"
    and "slots bm = filter (bit bm) [0..<b] @ filter (bit bm) [Suc b..<64]"
proof -
  have "filter (bit (bm OR push_bit b 1)) [0..<b] = filter (bit bm) [0..<b]"
    by (rule filter_cong) (auto simp: bit_set_slot' [OF assms(1)])
  moreover have "filter (bit (bm OR push_bit b 1)) [Suc b..<64] = filter (bit bm) [Suc b..<64]"
    by (rule filter_cong) (auto simp: bit_set_slot' [OF assms(1)])
  ultimately show "slots (bm OR push_bit b 1) = filter (bit bm) [0..<b] @ b # filter (bit bm) [Suc b..<64]"
    using slots_split [OF assms(1), of "bm OR push_bit b 1"] by (simp add: bit_set_slot' [OF assms(1)])
  show "slots bm = filter (bit bm) [0..<b] @ filter (bit bm) [Suc b..<64]"
    using slots_split [OF assms(1), of bm] assms(2) by simp
qed

lemma slots_clear_bit:
  assumes "b < 64" and "bit bm b"
  shows "slots (bm AND NOT (push_bit b 1)) = filter (bit bm) [0..<b] @ filter (bit bm) [Suc b..<64]"
    and "slots bm = filter (bit bm) [0..<b] @ b # filter (bit bm) [Suc b..<64]"
proof -
  have "filter (bit (bm AND NOT (push_bit b 1))) [0..<b] = filter (bit bm) [0..<b]"
    by (rule filter_cong) (auto simp: bit_clear_slot')
  moreover have "filter (bit (bm AND NOT (push_bit b 1))) [Suc b..<64] = filter (bit bm) [Suc b..<64]"
    by (rule filter_cong) (auto simp: bit_clear_slot')
  ultimately show "slots (bm AND NOT (push_bit b 1)) = filter (bit bm) [0..<b] @ filter (bit bm) [Suc b..<64]"
    using slots_split [OF assms(1), of "bm AND NOT (push_bit b 1)"] by (simp add: bit_clear_slot')
  show "slots bm = filter (bit bm) [0..<b] @ b # filter (bit bm) [Suc b..<64]"
    using slots_split [OF assms(1), of bm] assms(2) by simp
qed

lemma map_of_zip_insert:
  assumes "length A = length xs" and "b \<notin> set A"
  shows "map_of (zip (A @ b # B) (xs @ c # ys)) = (map_of (zip (A @ B) (xs @ ys)))(b \<mapsto> c)"
  using assms
proof (induction A xs rule: list_induct2)
  case Nil
  show ?case by simp
next
  case (Cons a A x xs)
  then have ne: "a \<noteq> b" and IH: "map_of (zip (A @ b # B) (xs @ c # ys)) = (map_of (zip (A @ B) (xs @ ys)))(b \<mapsto> c)"
    by auto
  have "map_of (zip ((a # A) @ b # B) ((x # xs) @ c # ys)) = (map_of (zip (A @ b # B) (xs @ c # ys)))(a \<mapsto> x)"
    by simp
  also have "\<dots> = ((map_of (zip (A @ B) (xs @ ys)))(a \<mapsto> x))(b \<mapsto> c)"
    unfolding IH using ne by (rule fun_upd_twist [symmetric])
  finally show ?case by (auto simp: fun_eq_iff)
qed

lemma map_of_zip_delete:
  assumes "length A = length xs" and "b \<notin> set A" and "b \<notin> set B"
  shows "map_of (zip (A @ B) (xs @ ys)) = (map_of (zip (A @ b # B) (xs @ c # ys)))(b := None)"
proof -
  from assms(2,3) have "b \<notin> set (A @ B)" by simp
  then have "map_of (zip (A @ B) (xs @ ys)) b = None"
    by (metis map_of_eq_None_iff set_zip_leftD surjective_pairing imageE)
  then show ?thesis unfolding map_of_zip_insert [OF assms(1,2)] by auto
qed

lemma childIndex_le:
  assumes "b < 64"
  shows "childIndexForBitNumber bm b \<le> pop_count bm"
    and "bit bm b \<Longrightarrow> childIndexForBitNumber bm b < pop_count bm"
proof -
  have "pop_count bm = length (slots bm)" by simp
  also have "\<dots> = length (filter (bit bm) [0..<b]) + (if bit bm b then 1 else 0) + length (filter (bit bm) [Suc b..<64])"
    unfolding slots_split [OF assms, of bm] by simp
  finally have "pop_count bm = childIndexForBitNumber bm b + (if bit bm b then 1 else 0) + length (filter (bit bm) [Suc b..<64])"
    by (simp add: childIndex_eq [OF assms])
  then show "childIndexForBitNumber bm b \<le> pop_count bm"
    and "bit bm b \<Longrightarrow> childIndexForBitNumber bm b < pop_count bm" by simp_all
qed

text \<open>The four facts about \<open>child_at\<close> that the rest builds on: what the source reads,
  and what \<^verbatim>\<open>_addChild\<close>, \<^verbatim>\<open>removeChild\<close> and an assignment to a slot do.\<close>

lemma child_at_read:
  assumes "b < 64" and "length cs = pop_count bm"
  shows "child_at bm cs b = (if bit bm b then Some (cs ! childIndexForBitNumber bm b) else None)"
proof (cases "bit bm b")
  case False
  then have "b \<notin> set (slots bm)" by (simp add: slots_def)
  then have "map_of (zip (slots bm) cs) b = None"
    by (metis map_of_eq_None_iff set_zip_leftD surjective_pairing imageE)
  with False show ?thesis by (simp add: child_at_def)
next
  case True
  let ?A = "filter (bit bm) [0..<b]" and ?B = "filter (bit bm) [Suc b..<64]"
  let ?i = "childIndexForBitNumber bm b"
  have i: "?i = length ?A" by (rule childIndex_eq [OF assms(1)])
  from childIndex_le(2) [OF assms(1) True] assms(2) have lt: "?i < length cs" by simp
  then have cs: "cs = take ?i cs @ cs ! ?i # drop (Suc ?i) cs" by (simp add: id_take_nth_drop)
  have len: "length ?A = length (take ?i cs)" using lt i by simp
  have notin: "b \<notin> set ?A" by simp
  have "map_of (zip (slots bm) cs) = map_of (zip (?A @ b # ?B) (take ?i cs @ cs ! ?i # drop (Suc ?i) cs))"
    using slots_clear_bit(2) [OF assms(1) True] cs by simp
  also have "\<dots> = (map_of (zip (?A @ ?B) (take ?i cs @ drop (Suc ?i) cs)))(b \<mapsto> cs ! ?i)"
    by (rule map_of_zip_insert [OF len notin])
  finally show ?thesis using True by (simp add: child_at_def)
qed

lemma child_at_add:
  assumes "b < 64" and "length cs = pop_count bm" and "\<not> bit bm b"
  shows "child_at (bm OR push_bit b 1)
           (take (childIndexForBitNumber bm b) cs @ c # drop (childIndexForBitNumber bm b) cs)
         = (child_at bm cs)(b \<mapsto> c)"
    and "pop_count (bm OR push_bit b 1) = Suc (pop_count bm)"
proof -
  let ?A = "filter (bit bm) [0..<b]" and ?B = "filter (bit bm) [Suc b..<64]"
  let ?i = "childIndexForBitNumber bm b"
  have i: "?i = length ?A" by (rule childIndex_eq [OF assms(1)])
  from childIndex_le(1) [OF assms(1)] assms(2) have le: "?i \<le> length cs" by simp
  then have len: "length ?A = length (take ?i cs)" using i by simp
  have notin: "b \<notin> set ?A" by simp
  have "map_of (zip (slots (bm OR push_bit b 1)) (take ?i cs @ c # drop ?i cs))
        = map_of (zip (?A @ b # ?B) (take ?i cs @ c # drop ?i cs))"
    using slots_set_bit(1) [OF assms(1,3)] by simp
  also have "\<dots> = (map_of (zip (?A @ ?B) (take ?i cs @ drop ?i cs)))(b \<mapsto> c)"
    by (rule map_of_zip_insert [OF len notin])
  also have "\<dots> = (map_of (zip (slots bm) cs))(b \<mapsto> c)"
    using slots_set_bit(2) [OF assms(1,3)] by simp
  finally show "child_at (bm OR push_bit b 1) (take ?i cs @ c # drop ?i cs) = (child_at bm cs)(b \<mapsto> c)"
    by (simp add: child_at_def)
  have "length (slots (bm OR push_bit b 1)) = Suc (length (slots bm))"
    unfolding slots_set_bit [OF assms(1,3)] by simp
  then show "pop_count (bm OR push_bit b 1) = Suc (pop_count bm)" by simp
qed

lemma child_at_remove:
  assumes "b < 64" and "length cs = pop_count bm" and "bit bm b"
  shows "child_at (bm AND NOT (push_bit b 1))
           (take (childIndexForBitNumber bm b) cs @ drop (childIndexForBitNumber bm b + 1) cs)
         = (child_at bm cs)(b := None)"
    and "Suc (pop_count (bm AND NOT (push_bit b 1))) = pop_count bm"
proof -
  let ?A = "filter (bit bm) [0..<b]" and ?B = "filter (bit bm) [Suc b..<64]"
  let ?i = "childIndexForBitNumber bm b"
  have i: "?i = length ?A" by (rule childIndex_eq [OF assms(1)])
  from childIndex_le(2) [OF assms(1,3)] assms(2) have lt: "?i < length cs" by simp
  then have cs: "cs = take ?i cs @ cs ! ?i # drop (Suc ?i) cs" by (simp add: id_take_nth_drop)
  have len: "length ?A = length (take ?i cs)" using lt i by simp
  have notin: "b \<notin> set ?A" "b \<notin> set ?B" by simp_all
  have "map_of (zip (slots (bm AND NOT (push_bit b 1))) (take ?i cs @ drop (?i + 1) cs))
        = map_of (zip (?A @ ?B) (take ?i cs @ drop (Suc ?i) cs))"
    using slots_clear_bit(1) [OF assms(1,3)] by simp
  also have "\<dots> = (map_of (zip (?A @ b # ?B) (take ?i cs @ cs ! ?i # drop (Suc ?i) cs)))(b := None)"
    by (rule map_of_zip_delete [OF len notin])
  also have "\<dots> = (map_of (zip (slots bm) cs))(b := None)"
    using slots_clear_bit(2) [OF assms(1,3)] cs by simp
  finally show "child_at (bm AND NOT (push_bit b 1)) (take ?i cs @ drop (?i + 1) cs) = (child_at bm cs)(b := None)"
    by (simp add: child_at_def)
  have "Suc (length (slots (bm AND NOT (push_bit b 1)))) = length (slots bm)"
    unfolding slots_clear_bit [OF assms(1,3)] by simp
  then show "Suc (pop_count (bm AND NOT (push_bit b 1))) = pop_count bm" by simp
qed

lemma child_at_assign:
  assumes "b < 64" and "length cs = pop_count bm" and "bit bm b"
  shows "child_at bm (cs[childIndexForBitNumber bm b := c]) = (child_at bm cs)(b \<mapsto> c)"
proof -
  let ?A = "filter (bit bm) [0..<b]" and ?B = "filter (bit bm) [Suc b..<64]"
  let ?i = "childIndexForBitNumber bm b"
  have i: "?i = length ?A" by (rule childIndex_eq [OF assms(1)])
  from childIndex_le(2) [OF assms(1,3)] assms(2) have lt: "?i < length cs" by simp
  then have cs: "cs = take ?i cs @ cs ! ?i # drop (Suc ?i) cs" by (simp add: id_take_nth_drop)
  have upd: "cs[?i := c] = take ?i cs @ c # drop (Suc ?i) cs" using lt by (simp add: upd_conv_take_nth_drop)
  have len: "length ?A = length (take ?i cs)" using lt i by simp
  have notin: "b \<notin> set ?A" by simp
  have "map_of (zip (slots bm) (cs[?i := c])) = map_of (zip (?A @ b # ?B) (take ?i cs @ c # drop (Suc ?i) cs))"
    using slots_clear_bit(2) [OF assms(1,3)] upd by simp
  also have "\<dots> = (map_of (zip (?A @ ?B) (take ?i cs @ drop (Suc ?i) cs)))(b \<mapsto> c)"
    by (rule map_of_zip_insert [OF len notin])
  also have "\<dots> = ((map_of (zip (?A @ ?B) (take ?i cs @ drop (Suc ?i) cs)))(b \<mapsto> cs ! ?i))(b \<mapsto> c)"
    by simp
  also have "\<dots> = (map_of (zip (?A @ b # ?B) (take ?i cs @ cs ! ?i # drop (Suc ?i) cs)))(b \<mapsto> c)"
    by (simp only: map_of_zip_insert [OF len notin])
  also have "\<dots> = (map_of (zip (slots bm) cs))(b \<mapsto> c)"
    using slots_clear_bit(2) [OF assms(1,3)] cs by simp
  finally show ?thesis by (simp add: child_at_def)
qed

subsection \<open>The operations, read through the children by slice\<close>

lemma childBitNumber_drop_bit: "childBitNumber (drop_bit s h) 0 = childBitNumber h s"
  by (simp add: childBitNumber_def)

lemma drop_bit_drop_bit_hash: "drop_bit kBitShift (drop_bit s (h :: hash_t)) = drop_bit (s + kBitShift) h"
  by (simp add: drop_bit_drop_bit add.commute)

lemma hamt_inv_packed:
  "hamt_inv s (InteriorNode bm cap cs) \<Longrightarrow> length cs = pop_count bm \<and> length cs \<le> cap \<and> cap \<le> 64
     \<and> s + 6 < 32 \<and> 6 dvd s"
  by (simp add: kMaxChildren_def kBitShift_def)

lemma child_at_nth:
  assumes "length cs = pop_count bm" and "child_at bm cs b = Some c"
  shows "\<exists>i < length cs. slots bm ! i = b \<and> cs ! i = c"
proof -
  from assms(2) have "(b, c) \<in> set (zip (slots bm) cs)" by (simp add: child_at_def map_of_SomeD)
  then show ?thesis by (auto simp: in_set_zip)
qed

lemma distinct_slots [simp]: "distinct (slots bm)"
  by (simp add: slots_def)

lemma slots_less: "b \<in> set (slots bm) \<Longrightarrow> b < 64 \<and> bit bm b"
  by (auto simp: slots_def)

lemma nth_child_at:
  assumes "length cs = pop_count bm" and "i < length cs"
  shows "child_at bm cs (slots bm ! i) = Some (cs ! i)"
  using assms by (simp add: child_at_def map_of_zip_nth)

lemma child_at_Some_less:
  assumes "length cs = pop_count bm" and "child_at bm cs b = Some c"
  shows "b < 64 \<and> bit bm b \<and> c \<in> set cs"
proof -
  from child_at_nth [OF assms] obtain i where "i < length cs" "slots bm ! i = b" "cs ! i = c" by blast
  with assms(1) slots_less [of b bm] show ?thesis by (metis length_slots nth_mem)
qed

text \<open>The shape of a tree, stated over the children by slice.\<close>

lemma hamt_inv_child_at:
  "hamt_inv s (InteriorNode bm cap cs) \<longleftrightarrow>
     length cs = pop_count bm \<and> length cs \<le> cap \<and> cap \<le> 64 \<and> s + 6 < 32 \<and> 6 dvd s
     \<and> (\<forall>b c. child_at bm cs b = Some c \<longrightarrow>
           (\<forall>l \<in> set (leaves c). childBitNumber (fst l) s = b)
           \<and> (case c of InteriorNode bm' cap' cs' \<Rightarrow> bm' \<noteq> 0 | LeafNode h k v \<Rightarrow> True)
           \<and> hamt_inv (s + 6) c)"
  (is "?L \<longleftrightarrow> ?R")
proof
  assume L: ?L
  then have p: "length cs = pop_count bm" by simp
  show ?R
  proof (intro conjI allI impI)
    fix b c assume "child_at bm cs b = Some c"
    from child_at_nth [OF p this] obtain i where i: "i < length cs" "slots bm ! i = b" "cs ! i = c" by blast
    with L show "\<forall>l \<in> set (leaves c). childBitNumber (fst l) s = b"
      and "case c of InteriorNode bm' cap' cs' \<Rightarrow> bm' \<noteq> 0 | LeafNode h k v \<Rightarrow> True"
      and "hamt_inv (s + 6) c"
      by (auto simp: kBitShift_def)
  qed (use L in \<open>simp_all add: kMaxChildren_def kBitShift_def\<close>)
next
  assume R: ?R
  then have p: "length cs = pop_count bm" by simp
  have "(\<forall>l \<in> set (leaves (cs ! i)). childBitNumber (fst l) s = slots bm ! i)
            \<and> (case cs ! i of InteriorNode bm' cap' cs' \<Rightarrow> bm' \<noteq> 0 | LeafNode h k v \<Rightarrow> True)
            \<and> hamt_inv (s + 6) (cs ! i)" if "i < length cs" for i
    using R nth_child_at [OF p that] by blast
  with R show ?L by (simp add: kMaxChildren_def kBitShift_def)
qed

lemma find_child_at:
  assumes "length cs = pop_count bm" and "length cs \<le> cap"
  shows "find_node (InteriorNode bm cap cs) x =
           (case child_at bm cs (childBitNumber x 0) of
              None \<Rightarrow> Inr None
            | Some (LeafNode h k v) \<Rightarrow> Inr (Some (h, k, v))
            | Some (InteriorNode bm' cap' cs') \<Rightarrow> find_node (InteriorNode bm' cap' cs') (drop_bit kBitShift x))"
proof -
  let ?b = "childBitNumber x 0"
  have b: "?b < 64" by (rule childBitNumber_less)
  show ?thesis
  proof (cases "bit bm ?b")
    case False
    with child_at_read [OF b assms(1)] show ?thesis by (simp add: hasChild_bit)
  next
    case True
    from childIndex_le(2) [OF b True] assms have "childIndexForBitNumber bm ?b < length cs"
      "childIndexForBitNumber bm ?b < cap" by simp_all
    with True child_at_read [OF b assms(1)] show ?thesis
      by (simp add: hasChild_bit split: node.splits)
  qed
qed

lemma lookup_child_at:
  assumes "length cs = pop_count bm" and "length cs \<le> cap"
  shows "lookup (InteriorNode bm cap cs) s h k =
           (case child_at bm cs (childBitNumber h s) of
              None \<Rightarrow> Inr None
            | Some (LeafNode lh lk lv) \<Rightarrow> if lh = h \<and> lk = k then Inr (Some lv) else Inr None
            | Some (InteriorNode bm' cap' cs') \<Rightarrow> lookup (InteriorNode bm' cap' cs') (s + kBitShift) h k)"
  unfolding lookup_def find_child_at [OF assms] childBitNumber_drop_bit drop_bit_drop_bit_hash
  by (simp add: bind_res_def split: option.splits node.splits)

lemma pop_count_full:
  assumes "pop_count bm = 64" and "b < 64"
  shows "bit bm b"
proof -
  from assms(1) have "length (filter (bit bm) [0..<64]) = length [0..<64]" by (simp add: pop_count_def)
  then have "\<forall>j \<in> set [0..<64]. bit bm j" by (metis filter_id_conv length_filter_le filter_True length_filter_less not_less order_refl)
  with assms(2) show ?thesis by simp
qed

lemma insert_free_slot:
  assumes "length cs = pop_count bm" and "length cs \<le> cap" and "cap \<le> 64" and "s + 6 < 32"
    and "child_at bm cs (childBitNumber h s) = None"
  shows "insert_node (InteriorNode bm cap cs) (h, k, v) s =
           Inr (InteriorNode (bm OR push_bit (childBitNumber h s) 1)
                  (if pop_count bm < cap then cap else cap + 1)
                  (take (childIndexForBitNumber bm (childBitNumber h s)) cs @ LeafNode h k v
                     # drop (childIndexForBitNumber bm (childBitNumber h s)) cs),
                \<not> pop_count bm < cap)"
proof -
  let ?b = "childBitNumber h s"
  let ?i = "childIndexForBitNumber bm ?b"
  have b: "?b < 64" by (rule childBitNumber_less)
  from assms(5) child_at_read [OF b assms(1)] have nb: "\<not> bit bm ?b" by (simp split: if_splits)
  from childIndex_le(1) [OF b] assms(1) have i: "?i \<le> length cs" "?i \<le> pop_count bm" by simp_all
  show ?thesis
  proof (cases "pop_count bm < cap")
    case True
    with i assms nb show ?thesis
      by (simp add: hasChild_bit kBitShift_def childCount_def bind_res_def Let_def)
  next
    case False
    with assms have full: "pop_count bm = cap" by simp
    have "cap < 64"
    proof (rule ccontr)
      assume "\<not> cap < 64"
      with assms(3) full have "pop_count bm = 64" by simp
      from pop_count_full [OF this b] nb show False by simp
    qed
    with False i assms nb full show ?thesis
      by (simp add: hasChild_bit kBitShift_def kMaxChildren_def childCount_def bind_res_def Let_def)
  qed
qed

lemma child_read_index:
  assumes "length cs = pop_count bm" and "length cs \<le> cap" and "child_at bm cs b = Some c"
  shows "b < 64 \<and> bit bm b \<and> childIndexForBitNumber bm b < length cs
         \<and> childIndexForBitNumber bm b < cap \<and> cs ! childIndexForBitNumber bm b = c"
proof -
  from child_at_Some_less [OF assms(1,3)] have b: "b < 64" "bit bm b" by simp_all
  from childIndex_le(2) [OF b] assms have "childIndexForBitNumber bm b < length cs"
    "childIndexForBitNumber bm b < cap" by simp_all
  moreover from child_at_read [OF b(1) assms(1)] b(2) assms(3) have "cs ! childIndexForBitNumber bm b = c"
    by simp
  ultimately show ?thesis using b by simp
qed

lemma new_node_with_leaf:
  assumes "0 < c0" and "b < 64"
  shows "addChild (newInteriorNode c0) b l = Inr (InteriorNode (push_bit b 1) c0 [l], False)"
proof -
  have "pop_count 0 = 0" by (simp add: pop_count_def)
  moreover have "childIndexForBitNumber 0 b = 0" by (simp add: childIndexForBitNumber_def pop_count_def)
  ultimately show ?thesis using assms
    by (simp add: newInteriorNode_def childCount_def bind_res_def)
qed

lemma insert_leaf_slot:
  assumes "length cs = pop_count bm" and "length cs \<le> cap" and "s + 6 < 32"
    and "child_at bm cs (childBitNumber h s) = Some (LeafNode lh lk lv)"
  shows "insert_node (InteriorNode bm cap cs) (h, k, v) s =
           (if lh = h \<and> lk = k
            then Inr (InteriorNode bm cap (cs[childIndexForBitNumber bm (childBitNumber h s) := LeafNode lh lk v]), False)
            else bind_res (insert_node (InteriorNode (push_bit (childBitNumber lh (s + 6)) 1) (start_capacity s) [LeafNode lh lk lv])
                             (h, k, v) (s + 6))
                   (\<lambda>(node2, moved2).
                      if moved2 then Inl DanglingNode
                      else Inr (InteriorNode bm cap (cs[childIndexForBitNumber bm (childBitNumber h s) := node2]), False)))"
proof -
  from child_read_index [OF assms(1,2,4)] have
    r: "bit bm (childBitNumber h s)" "childIndexForBitNumber bm (childBitNumber h s) < length cs"
       "childIndexForBitNumber bm (childBitNumber h s) < cap"
       "cs ! childIndexForBitNumber bm (childBitNumber h s) = LeafNode lh lk lv"
    by simp_all
  have n: "addChild (newInteriorNode (start_capacity s)) (childBitNumber lh (s + 6)) (LeafNode lh lk lv)
           = Inr (InteriorNode (push_bit (childBitNumber lh (s + 6)) 1) (start_capacity s) [LeafNode lh lk lv], False)"
    by (rule new_node_with_leaf) (simp_all add: start_capacity_def childBitNumber_less)
  show ?thesis
    using r assms(3) n
    by (simp add: hasChild_bit kBitShift_def start_capacity_def bind_res_def Let_def)
qed

lemma insert_interior_slot:
  assumes "length cs = pop_count bm" and "length cs \<le> cap" and "s + 6 < 32"
    and "child_at bm cs (childBitNumber h s) = Some (InteriorNode bm' cap' cs')"
  shows "insert_node (InteriorNode bm cap cs) (h, k, v) s =
           bind_res (insert_node (InteriorNode bm' cap' cs') (h, k, v) (s + 6))
             (\<lambda>(node, moved). Inr (InteriorNode bm cap (cs[childIndexForBitNumber bm (childBitNumber h s) := node]), False))"
proof -
  from child_read_index [OF assms(1,2,4)] have
    r: "bit bm (childBitNumber h s)" "childIndexForBitNumber bm (childBitNumber h s) < length cs"
       "childIndexForBitNumber bm (childBitNumber h s) < cap"
       "cs ! childIndexForBitNumber bm (childBitNumber h s) = InteriorNode bm' cap' cs'"
    by simp_all
  show ?thesis
    using r assms(3)
    by (simp add: hasChild_bit kBitShift_def bind_res_def Let_def)
qed

lemma insert_assertion:
  "\<not> s + 6 < 32 \<Longrightarrow> insert_node (InteriorNode bm cap cs) (h, k, v) s = Inl AssertionFailed"
  by (simp add: kBitShift_def)

lemma insert_free_slot_cap:
  assumes "length cs = pop_count bm" and "length cs \<le> cap" and "cap \<le> 64"
    and "child_at bm cs b = None" and "b < 64" and "\<not> pop_count bm < cap"
  shows "cap < 64"
proof (rule ccontr)
  assume "\<not> cap < 64"
  with assms have "pop_count bm = 64" by simp
  from pop_count_full [OF this assms(5)] child_at_read [OF assms(5,1)] assms(4) show False by simp
qed

lemma itemCount_packed:
  "length cs = pop_count bm \<Longrightarrow> itemCount (InteriorNode bm cap cs) = sum_list (map itemCount cs)"
  by (simp add: childCount_def)

lemma sum_list_update_nat:
  fixes f :: "'a \<Rightarrow> nat"
  assumes "i < length xs"
  shows "sum_list (map f (xs[i := y])) + f (xs ! i) = sum_list (map f xs) + f y"
proof -
  from assms have "xs = take i xs @ xs ! i # drop (Suc i) xs" by (simp add: id_take_nth_drop)
  moreover from assms have "xs[i := y] = take i xs @ y # drop (Suc i) xs" by (simp add: upd_conv_take_nth_drop)
  ultimately have "sum_list (map f (xs[i := y])) + f (xs ! i)
      = sum_list (map f (take i xs)) + f y + sum_list (map f (drop (Suc i) xs)) + f (xs ! i)"
    and "sum_list (map f xs) = sum_list (map f (take i xs)) + f (xs ! i) + sum_list (map f (drop (Suc i) xs))"
    by (simp, metis map_append list.simps(9) sum_list.Cons sum_list_append add.assoc)
  then show ?thesis by simp
qed

lemma sum_list_insert_nat:
  fixes f :: "'a \<Rightarrow> nat"
  shows "sum_list (map f (take i xs @ y # drop i xs)) = sum_list (map f xs) + f y"
proof -
  have "sum_list (map f xs) = sum_list (map f (take i xs @ drop i xs))" by simp
  also have "\<dots> = sum_list (map f (take i xs)) + sum_list (map f (drop i xs))" by (simp del: append_take_drop_id)
  finally show ?thesis by simp
qed

lemma sum_list_delete_nat:
  fixes f :: "'a \<Rightarrow> nat"
  assumes "i < length xs"
  shows "sum_list (map f (take i xs @ drop (Suc i) xs)) + f (xs ! i) = sum_list (map f xs)"
proof -
  from assms have "xs = take i xs @ xs ! i # drop (Suc i) xs" by (simp add: id_take_nth_drop)
  then have "sum_list (map f xs) = sum_list (map f (take i xs)) + f (xs ! i) + sum_list (map f (drop (Suc i) xs))"
    by (metis map_append list.simps(9) sum_list.Cons sum_list_append add.assoc)
  then show ?thesis by simp
qed

lemma leaves_insert_child:
  "set (leaves (InteriorNode bm' cap' (take i cs @ c # drop i cs)))
     = set (leaves c) \<union> set (leaves (InteriorNode bm cap cs))"
proof -
  have "set cs = set (take i cs) \<union> set (drop i cs)" by (metis append_take_drop_id set_append)
  then show ?thesis by auto
qed

lemma leaves_assign_child:
  "set (leaves (InteriorNode bm' cap' (cs[i := c])))
     \<subseteq> set (leaves c) \<union> set (leaves (InteriorNode bm cap cs))"
  using set_update_subset_insert [of cs i c] by auto

lemma leaves_delete_child:
  "set (leaves (InteriorNode bm' cap' (take i cs @ drop (Suc i) cs)))
     \<subseteq> set (leaves (InteriorNode bm cap cs))"
proof -
  have "set (take i cs @ drop (Suc i) cs) \<subseteq> set cs"
    by (auto dest: in_set_takeD in_set_dropD)
  then show ?thesis by auto
qed

lemma leaves_child_subset:
  assumes "length cs = pop_count bm" and "child_at bm cs b = Some c"
  shows "set (leaves c) \<subseteq> set (leaves (InteriorNode bm cap cs))"
  using child_at_Some_less [OF assms] by auto

lemma bitmap_with_slot_nonzero: "b < 64 \<Longrightarrow> bm OR push_bit b 1 \<noteq> (0 :: bitmap_t)"
proof
  assume b: "b < 64" and "bm OR push_bit b 1 = 0"
  then have "\<not> bit (bm OR push_bit b 1) b" by simp
  with bit_set_slot [OF b, of bm b] show False by simp
qed

lemma bitmap_bit_nonzero: "bit bm b \<Longrightarrow> bm \<noteq> (0 :: bitmap_t)"
  by auto

lemma child_at_single:
  assumes "b < 64"
  shows "child_at (push_bit b 1) [c] = [b \<mapsto> c]" and "pop_count (push_bit b 1) = 1"
proof -
  have z: "pop_count 0 = 0" by (simp add: pop_count_def)
  have e: "child_at 0 ([] :: ('a, 'b) node list) = Map.empty" by (simp add: child_at_def)
  have nb: "\<not> bit (0 :: bitmap_t) b" by simp
  have i: "childIndexForBitNumber 0 b = 0" by (simp add: childIndexForBitNumber_def pop_count_def)
  from child_at_add(1) [OF assms _ nb, of "[]" c] z i e show "child_at (push_bit b 1) [c] = [b \<mapsto> c]"
    by simp
  from child_at_add(2) [OF assms _ nb, of "[] :: ('a, 'b) node list"] z show "pop_count (push_bit b 1) = 1"
    by simp
qed

text \<open>A new interior node that holds one leaf.\<close>

lemma single_leaf_node:
  assumes "s + 6 < 32" and "6 dvd s" and "0 < c0" and "c0 \<le> 64"
  shows "hamt_inv s (InteriorNode (push_bit (childBitNumber lh s) 1) c0 [LeafNode lh lk lv])"
    and "lookup (InteriorNode (push_bit (childBitNumber lh s) 1) c0 [LeafNode lh lk lv]) s h k
         = (if lh = h \<and> lk = k then Inr (Some lv) else Inr None)"
    and "itemCount (InteriorNode (push_bit (childBitNumber lh s) 1) c0 [LeafNode lh lk lv]) = 1"
proof -
  let ?b = "childBitNumber lh s"
  have b: "?b < 64" by (rule childBitNumber_less)
  note single = child_at_single(1) [OF b, of "LeafNode lh lk lv"] child_at_single(2) [OF b]
  have p: "length [LeafNode lh lk lv] = pop_count (push_bit ?b 1)" "length [LeafNode lh lk lv] \<le> c0"
    using single(2) assms(3) by simp_all
  show "hamt_inv s (InteriorNode (push_bit ?b 1) c0 [LeafNode lh lk lv])"
    unfolding hamt_inv_child_at using p assms single(1) by (auto split: if_splits)
  show "lookup (InteriorNode (push_bit ?b 1) c0 [LeafNode lh lk lv]) s h k
         = (if lh = h \<and> lk = k then Inr (Some lv) else Inr None)"
    unfolding lookup_child_at [OF p] single(1) by auto
  show "itemCount (InteriorNode (push_bit ?b 1) c0 [LeafNode lh lk lv]) = 1"
    by (simp only: itemCount_packed [OF p(1)]) simp
qed

text \<open>An interior node after one of its children has been replaced.\<close>

lemma assign_child_props:
  assumes inv: "hamt_inv s (InteriorNode bm cap cs)"
    and old: "child_at bm cs b = Some c"
    and new: "hamt_inv (s + 6) (InteriorNode bm1 cap1 cs1)" "bm1 \<noteq> 0"
    and path: "\<forall>l \<in> set (leaves (InteriorNode bm1 cap1 cs1)). childBitNumber (fst l) s = b"
  defines "n' \<equiv> InteriorNode bm cap (cs[childIndexForBitNumber bm b := InteriorNode bm1 cap1 cs1])"
  shows "hamt_inv s n'"
    and "set (leaves n') \<subseteq> set (leaves (InteriorNode bm1 cap1 cs1)) \<union> set (leaves (InteriorNode bm cap cs))"
    and "lookup n' s h' k' = (if childBitNumber h' s = b then lookup (InteriorNode bm1 cap1 cs1) (s + 6) h' k'
                              else lookup (InteriorNode bm cap cs) s h' k')"
    and "itemCount n' + itemCount c = itemCount (InteriorNode bm cap cs) + itemCount (InteriorNode bm1 cap1 cs1)"
proof -
  let ?i = "childIndexForBitNumber bm b"
  from hamt_inv_packed [OF inv] have p: "length cs = pop_count bm" "length cs \<le> cap" by simp_all
  from child_read_index [OF p old] have r: "b < 64" "bit bm b" "?i < length cs" "cs ! ?i = c" by simp_all
  have p': "length (cs[?i := InteriorNode bm1 cap1 cs1]) = pop_count bm" "length (cs[?i := InteriorNode bm1 cap1 cs1]) \<le> cap"
    using p by simp_all
  note ca = child_at_assign [OF r(1) p(1) r(2), of "InteriorNode bm1 cap1 cs1"]
  show "hamt_inv s n'"
    using inv new path unfolding n'_def hamt_inv_child_at [of s bm cap] ca
    by (auto simp: kBitShift_def split: if_splits)
  show "set (leaves n') \<subseteq> set (leaves (InteriorNode bm1 cap1 cs1)) \<union> set (leaves (InteriorNode bm cap cs))"
    unfolding n'_def by (rule leaves_assign_child)
  show "lookup n' s h' k' = (if childBitNumber h' s = b then lookup (InteriorNode bm1 cap1 cs1) (s + 6) h' k'
                              else lookup (InteriorNode bm cap cs) s h' k')"
    unfolding n'_def lookup_child_at [OF p'] lookup_child_at [OF p] ca
    by (simp add: kBitShift_def)
  show "itemCount n' + itemCount c = itemCount (InteriorNode bm cap cs) + itemCount (InteriorNode bm1 cap1 cs1)"
    unfolding n'_def using sum_list_update_nat [OF r(3), of itemCount "InteriorNode bm1 cap1 cs1"] p r(4)
    by (simp add: childCount_def)
qed

declare insert_node.simps [simp del] find_node.simps [simp del]

lemma start_capacity_bounds: "0 < start_capacity s \<and> start_capacity s \<le> 64"
  by (simp add: start_capacity_def)

text \<open>What a call of \<^verbatim>\<open>insert\<close> that returns does to a well-shaped tree.\<close>

lemma insert_props:
  assumes "hamt_inv s (InteriorNode bm cap cs)"
    and "insert_node (InteriorNode bm cap cs) (h, k, v) s = Inr (n', moved)"
  shows "(\<exists>bm' cs'. n' = InteriorNode bm' (if moved then cap + 1 else cap) cs' \<and> bm' \<noteq> 0)
       \<and> (moved \<longrightarrow> cap \<le> pop_count bm)
       \<and> hamt_inv s n'
       \<and> set (leaves n') \<subseteq> insert (h, k, v) (set (leaves (InteriorNode bm cap cs)))
       \<and> lookup n' s h k = Inr (Some v)
       \<and> (\<forall>h' k'. (h', k') \<noteq> (h, k) \<longrightarrow> lookup n' s h' k' = lookup (InteriorNode bm cap cs) s h' k')
       \<and> itemCount n' = itemCount (InteriorNode bm cap cs)
                          + (if lookup (InteriorNode bm cap cs) s h k = Inr None then 1 else 0)"
  using assms
proof (induction "32 - s" arbitrary: s bm cap cs n' moved rule: less_induct)
  case less
  let ?N = "InteriorNode bm cap cs"
  let ?b = "childBitNumber h s"
  let ?i = "childIndexForBitNumber bm ?b"
  note inv = less.prems(1) and ins = less.prems(2)
  from hamt_inv_packed [OF inv] have p: "length cs = pop_count bm" "length cs \<le> cap" "cap \<le> 64"
    and s: "s + 6 < 32" "6 dvd s" by simp_all
  have b: "?b < 64" by (rule childBitNumber_less)
  note lk = lookup_child_at [OF p(1,2)]
  show ?case
  proof (cases "child_at bm cs ?b")
    case None
    let ?cap' = "if pop_count bm < cap then cap else cap + 1"
    let ?cs' = "take ?i cs @ LeafNode h k v # drop ?i cs"
    let ?bm' = "bm OR push_bit ?b 1"
    from ins insert_free_slot [OF p s(1) None] have n': "n' = InteriorNode ?bm' ?cap' ?cs'"
      and moved: "moved = (\<not> pop_count bm < cap)" by simp_all
    from None child_at_read [OF b p(1)] have nb: "\<not> bit bm ?b" by (simp split: if_splits)
    note ca = child_at_add(1) [OF b p(1) nb, of "LeafNode h k v"] child_at_add(2) [OF b p(1) nb]
    from childIndex_le(1) [OF b, of bm] p have il: "?i \<le> length cs" by simp
    have cap': "?cap' \<le> 64" using insert_free_slot_cap [OF p None b] p(3) by auto
    have p': "length ?cs' = pop_count ?bm'" "length ?cs' \<le> ?cap'"
      using il p ca(2) by auto
    have 0: "moved \<longrightarrow> cap \<le> pop_count bm" using moved by simp
    have 1: "\<exists>bm' cs'. n' = InteriorNode bm' (if moved then cap + 1 else cap) cs' \<and> bm' \<noteq> 0"
      using n' moved bitmap_with_slot_nonzero [OF b, of bm] by auto
    have 2: "hamt_inv s n'"
      unfolding n' hamt_inv_child_at ca(1)
      using inv [unfolded hamt_inv_child_at] p' cap' s by (auto split: if_splits)
    have 3: "set (leaves n') \<subseteq> insert (h, k, v) (set (leaves ?N))"
      unfolding n' leaves_insert_child [of ?bm' ?cap' ?i cs "LeafNode h k v" bm cap] by auto
    have 4: "lookup n' s h k = Inr (Some v)"
      unfolding n' lookup_child_at [OF p'] ca(1) by simp
    have 5: "lookup n' s h' k' = lookup ?N s h' k'" if "(h', k') \<noteq> (h, k)" for h' k'
      unfolding n' lookup_child_at [OF p'] lk ca(1) using that None by auto
    have 6: "itemCount n' = itemCount ?N + (if lookup ?N s h k = Inr None then 1 else 0)"
      unfolding n' itemCount_packed [OF p'(1)] itemCount_packed [OF p(1)] sum_list_insert_nat lk None
      by simp
    from 0 1 2 3 4 5 6 show ?thesis by blast
  next
    case (Some c)
    from child_read_index [OF p(1,2) Some] have r: "bit bm ?b" "?i < length cs" "cs ! ?i = c" by simp_all
    from inv [unfolded hamt_inv_child_at] Some have
      cpath: "\<forall>l \<in> set (leaves c). childBitNumber (fst l) s = ?b" and cinv: "hamt_inv (s + 6) c"
      by blast+
    show ?thesis
    proof (cases c)
      case (LeafNode lh lk lv)
      note Leaf = Some [unfolded LeafNode]
      from cpath LeafNode have lb: "childBitNumber lh s = ?b" by simp
      show ?thesis
      proof (cases "lh = h \<and> lk = k")
        case True
        let ?cs' = "cs[?i := LeafNode lh lk v]"
        from ins insert_leaf_slot [OF p(1,2) s(1) Leaf] True have n': "n' = InteriorNode bm cap ?cs'"
          and moved: "\<not> moved" by simp_all
        note ca = child_at_assign [OF b p(1) r(1), of "LeafNode lh lk v"]
        have p': "length ?cs' = pop_count bm" "length ?cs' \<le> cap" using p by simp_all
        have 0: "moved \<longrightarrow> cap \<le> pop_count bm" using moved by simp
        have 1: "\<exists>bm' cs'. n' = InteriorNode bm' (if moved then cap + 1 else cap) cs' \<and> bm' \<noteq> 0"
          using n' moved bitmap_bit_nonzero [OF r(1)] by auto
        have 2: "hamt_inv s n'"
          unfolding n' hamt_inv_child_at ca
          using inv [unfolded hamt_inv_child_at] p' True lb by (auto split: if_splits)
        have 3: "set (leaves n') \<subseteq> insert (h, k, v) (set (leaves ?N))"
          using leaves_assign_child [of bm cap cs ?i "LeafNode lh lk v" bm cap] True unfolding n' by auto
        have 4: "lookup n' s h k = Inr (Some v)"
          unfolding n' lookup_child_at [OF p'] ca using True by simp
        have 5: "lookup n' s h' k' = lookup ?N s h' k'" if "(h', k') \<noteq> (h, k)" for h' k'
          unfolding n' lookup_child_at [OF p'] lk ca using that Leaf True by auto
        have "sum_list (map itemCount ?cs') + itemCount (cs ! ?i) = sum_list (map itemCount cs) + itemCount (LeafNode lh lk v)"
          by (rule sum_list_update_nat [OF r(2)])
        then have 6: "itemCount n' = itemCount ?N + (if lookup ?N s h k = Inr None then 1 else 0)"
          unfolding n' itemCount_packed [OF p'(1)] itemCount_packed [OF p(1)] lk Leaf r(3) LeafNode
          using True by simp
        from 0 1 2 3 4 5 6 show ?thesis by blast
      next
        case False
        let ?M = "InteriorNode (push_bit (childBitNumber lh (s + 6)) 1) (start_capacity s) [LeafNode lh lk lv]"
        from ins insert_leaf_slot [OF p(1,2) s(1) Leaf] False obtain node2 where
          inner: "insert_node ?M (h, k, v) (s + 6) = Inr (node2, False)"
          and n': "n' = InteriorNode bm cap (cs[?i := node2])" and moved: "\<not> moved"
          by (auto simp: bind_res_def split: sum.splits if_splits)
        have s': "s + 6 + 6 < 32"
        proof (rule ccontr)
          assume "\<not> s + 6 + 6 < 32"
          from insert_assertion [OF this, of "push_bit (childBitNumber lh (s + 6)) 1" "start_capacity s"
              "[LeafNode lh lk lv]" h k v] inner
          show False by simp
        qed
        from s have d: "6 dvd s + 6" by simp
        from start_capacity_bounds [of s] have sc: "0 < start_capacity s" "start_capacity s \<le> 64" by simp_all
        have Minv: "hamt_inv (s + 6) ?M" by (rule single_leaf_node(1) [OF s' d sc])
        have Mlk: "lookup ?M (s + 6) h' k' = (if lh = h' \<and> lk = k' then Inr (Some lv) else Inr None)" for h' k'
          by (rule single_leaf_node(2) [OF s' d sc])
        have Mcount: "itemCount ?M = 1" by (rule single_leaf_node(3) [OF s' d sc])
        have "32 - (s + 6) < 32 - s" using s by simp
        from less.hyps [OF this Minv inner] obtain bm2 cs2 where
          node2: "node2 = InteriorNode bm2 (start_capacity s) cs2" "bm2 \<noteq> 0"
          and inv2: "hamt_inv (s + 6) node2"
          and lv2: "set (leaves node2) \<subseteq> insert (h, k, v) (set (leaves ?M))"
          and lk2: "lookup node2 (s + 6) h k = Inr (Some v)"
          and oth2: "\<And>h' k'. (h', k') \<noteq> (h, k) \<Longrightarrow> lookup node2 (s + 6) h' k' = lookup ?M (s + 6) h' k'"
          and cnt2: "itemCount node2 = itemCount ?M + (if lookup ?M (s + 6) h k = Inr None then 1 else 0)"
          by auto
        have path2: "\<forall>l \<in> set (leaves (InteriorNode bm2 (start_capacity s) cs2)). childBitNumber (fst l) s = ?b"
        proof
          fix l assume "l \<in> set (leaves (InteriorNode bm2 (start_capacity s) cs2))"
          with lv2 node2(1) have "l = (h, k, v) \<or> l = (lh, lk, lv)" by auto
          with lb show "childBitNumber (fst l) s = ?b" by auto
        qed
        note A = assign_child_props [OF inv Some inv2 [unfolded node2(1)] node2(2) path2]
        have n'': "n' = InteriorNode bm cap (cs[?i := InteriorNode bm2 (start_capacity s) cs2])"
          using n' node2(1) by simp
        have 0: "moved \<longrightarrow> cap \<le> pop_count bm" using moved by simp
        have 1: "\<exists>bm' cs'. n' = InteriorNode bm' (if moved then cap + 1 else cap) cs' \<and> bm' \<noteq> 0"
          using n' moved bitmap_bit_nonzero [OF r(1)] by auto
        have 2: "hamt_inv s n'" unfolding n'' by (rule A(1))
        have 3: "set (leaves n') \<subseteq> insert (h, k, v) (set (leaves ?N))"
          using A(2) lv2 leaves_child_subset [OF p(1) Some, of cap] unfolding n'' node2(1) LeafNode by auto
        have 4: "lookup n' s h k = Inr (Some v)"
          unfolding n'' A(3) using lk2 node2(1) by simp
        have 5: "lookup n' s h' k' = lookup ?N s h' k'" if "(h', k') \<noteq> (h, k)" for h' k'
        proof (cases "childBitNumber h' s = ?b")
          case True
          have "lookup n' s h' k' = lookup ?M (s + 6) h' k'"
            unfolding n'' A(3) using True oth2 [OF that] node2(1) by simp
          also have "\<dots> = lookup ?N s h' k'"
            unfolding Mlk lk using True Leaf by simp
          finally show ?thesis .
        next
          case False
          then show ?thesis unfolding n'' A(3) by simp
        qed
        have "lookup ?M (s + 6) h k = Inr None" unfolding Mlk using False by simp
        with cnt2 Mcount have "itemCount node2 = 2" by simp
        with A(4) LeafNode node2(1) have "itemCount n' = itemCount ?N + 1" unfolding n'' by simp
        moreover have "lookup ?N s h k = Inr None" unfolding lk Leaf using False by simp
        ultimately have 6: "itemCount n' = itemCount ?N + (if lookup ?N s h k = Inr None then 1 else 0)"
          by simp
        from 0 1 2 3 4 5 6 show ?thesis by blast
      qed
    next
      case (InteriorNode bm1 cap1 cs1)
      note Int = Some [unfolded InteriorNode]
      from ins insert_interior_slot [OF p(1,2) s(1) Int] obtain node m1 where
        inner: "insert_node (InteriorNode bm1 cap1 cs1) (h, k, v) (s + 6) = Inr (node, m1)"
        and n': "n' = InteriorNode bm cap (cs[?i := node])" and moved: "\<not> moved"
        by (auto simp: bind_res_def split: sum.splits if_splits)
      have "32 - (s + 6) < 32 - s" using s by simp
      from less.hyps [OF this cinv [unfolded InteriorNode] inner] obtain bm2 cap2 cs2 where
        node2: "node = InteriorNode bm2 cap2 cs2" "bm2 \<noteq> 0"
        and inv2: "hamt_inv (s + 6) node"
        and lv2: "set (leaves node) \<subseteq> insert (h, k, v) (set (leaves (InteriorNode bm1 cap1 cs1)))"
        and lk2: "lookup node (s + 6) h k = Inr (Some v)"
        and oth2: "\<And>h' k'. (h', k') \<noteq> (h, k) \<Longrightarrow> lookup node (s + 6) h' k' = lookup (InteriorNode bm1 cap1 cs1) (s + 6) h' k'"
        and cnt2: "itemCount node = itemCount (InteriorNode bm1 cap1 cs1)
                     + (if lookup (InteriorNode bm1 cap1 cs1) (s + 6) h k = Inr None then 1 else 0)"
        by auto
      have path2: "\<forall>l \<in> set (leaves (InteriorNode bm2 cap2 cs2)). childBitNumber (fst l) s = ?b"
      proof
        fix l assume "l \<in> set (leaves (InteriorNode bm2 cap2 cs2))"
        with lv2 node2(1) have "l = (h, k, v) \<or> l \<in> set (leaves c)" unfolding InteriorNode by blast
        with cpath show "childBitNumber (fst l) s = ?b" by auto
      qed
      note A = assign_child_props [OF inv Some inv2 [unfolded node2(1)] node2(2) path2]
      have n'': "n' = InteriorNode bm cap (cs[?i := InteriorNode bm2 cap2 cs2])"
        using n' node2(1) by simp
      have lkN: "lookup ?N s h' k' = lookup (InteriorNode bm1 cap1 cs1) (s + 6) h' k'"
        if "childBitNumber h' s = ?b" for h' k'
        unfolding lk using that Int by (simp add: kBitShift_def)
      have 0: "moved \<longrightarrow> cap \<le> pop_count bm" using moved by simp
      have 1: "\<exists>bm' cs'. n' = InteriorNode bm' (if moved then cap + 1 else cap) cs' \<and> bm' \<noteq> 0"
        using n' moved bitmap_bit_nonzero [OF r(1)] by auto
      have 2: "hamt_inv s n'" unfolding n'' by (rule A(1))
      have 3: "set (leaves n') \<subseteq> insert (h, k, v) (set (leaves ?N))"
        using A(2) lv2 leaves_child_subset [OF p(1) Some, of cap] unfolding n'' node2(1) InteriorNode by auto
      have 4: "lookup n' s h k = Inr (Some v)"
        unfolding n'' A(3) using lk2 node2(1) by simp
      have 5: "lookup n' s h' k' = lookup ?N s h' k'" if "(h', k') \<noteq> (h, k)" for h' k'
      proof (cases "childBitNumber h' s = ?b")
        case True
        then show ?thesis unfolding n'' A(3) lkN [OF True] using oth2 [OF that] node2(1) by simp
      next
        case False
        then show ?thesis unfolding n'' A(3) by simp
      qed
      have 6: "itemCount n' = itemCount ?N + (if lookup ?N s h k = Inr None then 1 else 0)"
        using A(4) cnt2 unfolding n'' lkN [OF refl] node2(1) InteriorNode by simp
      from 0 1 2 3 4 5 6 show ?thesis by blast
    qed
  qed
qed

declare remove_node.simps [simp del]

lemma remove_free_slot:
  assumes "length cs = pop_count bm" and "s + 6 < 32"
    and "child_at bm cs (childBitNumber h s) = None"
  shows "remove_node (InteriorNode bm cap cs) (h, k) s = Inr (False, InteriorNode bm cap cs)"
proof -
  have b: "childBitNumber h s < 64" by (rule childBitNumber_less)
  from assms(3) child_at_read [OF b assms(1)] have "\<not> bit bm (childBitNumber h s)" by (simp split: if_splits)
  with assms(2) show ?thesis by (subst remove_node.simps) (simp add: hasChild_bit kBitShift_def)
qed

lemma remove_leaf_slot:
  assumes "length cs = pop_count bm" and "length cs \<le> cap" and "s + 6 < 32"
    and "child_at bm cs (childBitNumber h s) = Some (LeafNode lh lk lv)"
  shows "remove_node (InteriorNode bm cap cs) (h, k) s =
           (if lh = h \<and> lk = k
            then Inr (True, InteriorNode (bm AND NOT (push_bit (childBitNumber h s) 1)) cap
                              (take (childIndexForBitNumber bm (childBitNumber h s)) cs
                               @ drop (childIndexForBitNumber bm (childBitNumber h s) + 1) cs))
            else Inr (False, InteriorNode bm cap cs))"
proof -
  from child_read_index [OF assms(1,2,4)] have
    r: "bit bm (childBitNumber h s)" "childIndexForBitNumber bm (childBitNumber h s) < length cs"
       "childIndexForBitNumber bm (childBitNumber h s) < cap"
       "cs ! childIndexForBitNumber bm (childBitNumber h s) = LeafNode lh lk lv"
    by simp_all
  show ?thesis using r assms(3)
    by (subst remove_node.simps) (simp add: hasChild_bit kBitShift_def bind_res_def Let_def)
qed

lemma remove_interior_slot:
  assumes "length cs = pop_count bm" and "length cs \<le> cap" and "s + 6 < 32"
    and "child_at bm cs (childBitNumber h s) = Some (InteriorNode bm1 cap1 cs1)"
  shows "remove_node (InteriorNode bm cap cs) (h, k) s =
           bind_res (remove_node (InteriorNode bm1 cap1 cs1) (h, k) (s + 6))
             (\<lambda>(removed, node).
                if \<not> removed
                then Inr (False, InteriorNode bm cap (cs[childIndexForBitNumber bm (childBitNumber h s) := node]))
                else (case node of
                        InteriorNode nbm ncap ncs \<Rightarrow>
                          if nbm = 0
                          then Inr (True, InteriorNode (bm AND NOT (push_bit (childBitNumber h s) 1)) cap
                                            (take (childIndexForBitNumber bm (childBitNumber h s)) cs
                                             @ drop (childIndexForBitNumber bm (childBitNumber h s) + 1) cs))
                          else Inr (True, InteriorNode bm cap (cs[childIndexForBitNumber bm (childBitNumber h s) := node]))
                      | LeafNode _ _ _ \<Rightarrow> Inl BadCast))"
proof -
  from child_read_index [OF assms(1,2,4)] have
    r: "bit bm (childBitNumber h s)" "childIndexForBitNumber bm (childBitNumber h s) < length cs"
       "childIndexForBitNumber bm (childBitNumber h s) < cap"
       "cs ! childIndexForBitNumber bm (childBitNumber h s) = InteriorNode bm1 cap1 cs1"
    by simp_all
  show ?thesis
    using r assms(3)
    by (subst remove_node.simps, cases "remove_node (InteriorNode bm1 cap1 cs1) (h, k) (s + 6)")
       (auto simp: hasChild_bit kBitShift_def Let_def bind_res_def split: node.splits)
qed

text \<open>An interior node after one of its children has been taken out.\<close>

lemma delete_child_props:
  assumes inv: "hamt_inv s (InteriorNode bm cap cs)"
    and old: "child_at bm cs b = Some c"
  defines "n' \<equiv> InteriorNode (bm AND NOT (push_bit b 1)) cap
                   (take (childIndexForBitNumber bm b) cs @ drop (childIndexForBitNumber bm b + 1) cs)"
  shows "hamt_inv s n'"
    and "set (leaves n') \<subseteq> set (leaves (InteriorNode bm cap cs))"
    and "lookup n' s h' k' = (if childBitNumber h' s = b then Inr None else lookup (InteriorNode bm cap cs) s h' k')"
    and "itemCount n' + itemCount c = itemCount (InteriorNode bm cap cs)"
proof -
  let ?i = "childIndexForBitNumber bm b"
  let ?cs' = "take ?i cs @ drop (?i + 1) cs"
  let ?bm' = "bm AND NOT (push_bit b 1)"
  from hamt_inv_packed [OF inv] have p: "length cs = pop_count bm" "length cs \<le> cap" by simp_all
  from child_read_index [OF p old] have r: "b < 64" "bit bm b" "?i < length cs" "cs ! ?i = c" by simp_all
  note ca = child_at_remove [OF r(1) p(1) r(2)]
  have p': "length ?cs' = pop_count ?bm'" "length ?cs' \<le> cap"
    using p r(3) ca(2) by auto
  show "hamt_inv s n'"
    using inv p' unfolding n'_def hamt_inv_child_at [of s bm cap] hamt_inv_child_at [of s ?bm' cap] ca(1)
    by (auto split: if_splits)
  show "set (leaves n') \<subseteq> set (leaves (InteriorNode bm cap cs))"
    unfolding n'_def using leaves_delete_child [of ?bm' cap ?i cs bm cap] by simp
  show "lookup n' s h' k' = (if childBitNumber h' s = b then Inr None else lookup (InteriorNode bm cap cs) s h' k')"
    unfolding n'_def lookup_child_at [OF p'] lookup_child_at [OF p] ca(1) by simp
  show "itemCount n' + itemCount c = itemCount (InteriorNode bm cap cs)"
    unfolding n'_def itemCount_packed [OF p'(1)] itemCount_packed [OF p(1)]
    using sum_list_delete_nat [OF r(3), of itemCount] r(4) by simp
qed

lemma empty_node:
  assumes "hamt_inv s (InteriorNode 0 cap cs)"
  shows "lookup (InteriorNode 0 cap cs) s h k = Inr None" and "itemCount (InteriorNode 0 cap cs) = 0"
proof -
  have z: "pop_count 0 = 0" by (simp add: pop_count_def)
  from hamt_inv_packed [OF assms] z have p: "length cs = pop_count 0" "length cs \<le> cap" and e: "cs = []"
    by simp_all
  have "child_at 0 cs = Map.empty" unfolding e by (simp add: child_at_def)
  then show "lookup (InteriorNode 0 cap cs) s h k = Inr None" unfolding lookup_child_at [OF p] by simp
  show "itemCount (InteriorNode 0 cap cs) = 0" unfolding e by simp
qed

declare itemCount.simps(2) [simp del]

text \<open>What \<^verbatim>\<open>remove\<close> does to a well-shaped tree: it returns, and the tree stays
  well-shaped.\<close>

lemma remove_props:
  assumes "hamt_inv s (InteriorNode bm cap cs)"
  shows "\<exists>removed bm' cs'.
           remove_node (InteriorNode bm cap cs) (h, k) s = Inr (removed, InteriorNode bm' cap cs')
         \<and> hamt_inv s (InteriorNode bm' cap cs')
         \<and> set (leaves (InteriorNode bm' cap cs')) \<subseteq> set (leaves (InteriorNode bm cap cs))
         \<and> lookup (InteriorNode bm' cap cs') s h k = Inr None
         \<and> (\<forall>h' k'. (h', k') \<noteq> (h, k) \<longrightarrow>
               lookup (InteriorNode bm' cap cs') s h' k' = lookup (InteriorNode bm cap cs) s h' k')
         \<and> (removed \<longleftrightarrow> lookup (InteriorNode bm cap cs) s h k \<noteq> Inr None)
         \<and> itemCount (InteriorNode bm' cap cs') + (if removed then 1 else 0) = itemCount (InteriorNode bm cap cs)
         \<and> (\<not> removed \<longrightarrow> InteriorNode bm' cap cs' = InteriorNode bm cap cs)"
  using assms
proof (induction "32 - s" arbitrary: s bm cap cs rule: less_induct)
  case less
  let ?N = "InteriorNode bm cap cs"
  let ?b = "childBitNumber h s"
  let ?i = "childIndexForBitNumber bm ?b"
  let ?D = "InteriorNode (bm AND NOT (push_bit ?b 1)) cap (take ?i cs @ drop (?i + 1) cs)"
  note inv = less.prems(1)
  from hamt_inv_packed [OF inv] have p: "length cs = pop_count bm" "length cs \<le> cap" "cap \<le> 64"
    and s: "s + 6 < 32" "6 dvd s" by simp_all
  note lk = lookup_child_at [OF p(1,2)]
  show ?case
  proof (cases "child_at bm cs ?b")
    case None
    from remove_free_slot [OF p(1) s(1) None] have "remove_node ?N (h, k) s = Inr (False, ?N)" .
    moreover have "lookup ?N s h k = Inr None" unfolding lk None by simp
    ultimately show ?thesis using inv by (intro exI [of _ False] exI [of _ bm] exI [of _ cs]) simp
  next
    case (Some c)
    from child_read_index [OF p(1,2) Some] have r: "bit bm ?b" "?i < length cs" "cs ! ?i = c" by simp_all
    from inv [unfolded hamt_inv_child_at] Some have
      cpath: "\<forall>l \<in> set (leaves c). childBitNumber (fst l) s = ?b" and cinv: "hamt_inv (s + 6) c"
      by blast+
    note D = delete_child_props [OF inv Some]
    show ?thesis
    proof (cases c)
      case (LeafNode lh lk lv)
      note Leaf = Some [unfolded LeafNode]
      show ?thesis
      proof (cases "lh = h \<and> lk = k")
        case True
        from remove_leaf_slot [OF p(1,2) s(1) Leaf] True have rm: "remove_node ?N (h, k) s = Inr (True, ?D)"
          by simp
        have 4: "lookup ?D s h k = Inr None" unfolding D(3) by simp
        have 5: "lookup ?D s h' k' = lookup ?N s h' k'" if "(h', k') \<noteq> (h, k)" for h' k'
          unfolding D(3) lk using that Leaf True by auto
        have 6: "lookup ?N s h k \<noteq> Inr None" unfolding lk Leaf using True by simp
        have 7: "itemCount ?D + 1 = itemCount ?N" using D(4) LeafNode by simp
        from rm D(1) D(2) 4 5 6 7 show ?thesis
          by (intro exI [of _ True] exI [of _ "bm AND NOT (push_bit ?b 1)"] exI [of _ "take ?i cs @ drop (?i + 1) cs"]) simp
      next
        case False
        from remove_leaf_slot [OF p(1,2) s(1) Leaf] False have "remove_node ?N (h, k) s = Inr (False, ?N)"
          by auto
        moreover have "lookup ?N s h k = Inr None" unfolding lk Leaf using False by auto
        ultimately show ?thesis using inv by (intro exI [of _ False] exI [of _ bm] exI [of _ cs]) simp
      qed
    next
      case (InteriorNode bm1 cap1 cs1)
      note Int = Some [unfolded InteriorNode]
      let ?C = "InteriorNode bm1 cap1 cs1"
      have lkN: "lookup ?N s h' k' = lookup ?C (s + 6) h' k'" if "childBitNumber h' s = ?b" for h' k'
        unfolding lk using that Int by (simp add: kBitShift_def)
      have "32 - (s + 6) < 32 - s" using s by simp
      from less.hyps [OF this cinv [unfolded InteriorNode]] obtain removed bm2 cs2 where
        inner: "remove_node ?C (h, k) (s + 6) = Inr (removed, InteriorNode bm2 cap1 cs2)"
        and inv2: "hamt_inv (s + 6) (InteriorNode bm2 cap1 cs2)"
        and lv2: "set (leaves (InteriorNode bm2 cap1 cs2)) \<subseteq> set (leaves ?C)"
        and lk2: "lookup (InteriorNode bm2 cap1 cs2) (s + 6) h k = Inr None"
        and oth2: "\<And>h' k'. (h', k') \<noteq> (h, k) \<Longrightarrow> lookup (InteriorNode bm2 cap1 cs2) (s + 6) h' k' = lookup ?C (s + 6) h' k'"
        and rem2: "removed \<longleftrightarrow> lookup ?C (s + 6) h k \<noteq> Inr None"
        and cnt2: "itemCount (InteriorNode bm2 cap1 cs2) + (if removed then 1 else 0) = itemCount ?C"
        and same2: "\<not> removed \<Longrightarrow> InteriorNode bm2 cap1 cs2 = ?C"
        by blast
      note unfold = remove_interior_slot [OF p(1,2) s(1) Int, of k, unfolded inner]
      show ?thesis
      proof (cases removed)
        case False
        from same2 [OF False] r(3) InteriorNode have "cs[?i := InteriorNode bm2 cap1 cs2] = cs"
          by (metis list_update_id)
        with unfold False have "remove_node ?N (h, k) s = Inr (False, ?N)" by (simp add: bind_res_def)
        moreover have "lookup ?N s h k = Inr None" using rem2 False lkN [OF refl] by simp
        ultimately show ?thesis using inv by (intro exI [of _ False] exI [of _ bm] exI [of _ cs]) simp
      next
        case True
        have 6: "lookup ?N s h k \<noteq> Inr None" using rem2 True lkN [OF refl] by simp
        show ?thesis
        proof (cases "bm2 = 0")
          case z: True
          from unfold True z have rm: "remove_node ?N (h, k) s = Inr (True, ?D)" by (simp add: bind_res_def)
          note E = empty_node [OF inv2 [unfolded z]]
          have 4: "lookup ?D s h k = Inr None" unfolding D(3) by simp
          have 5: "lookup ?D s h' k' = lookup ?N s h' k'" if "(h', k') \<noteq> (h, k)" for h' k'
          proof (cases "childBitNumber h' s = ?b")
            case True
            with oth2 [OF that] E(1) z show ?thesis unfolding D(3) lkN [OF True] by simp
          next
            case False
            then show ?thesis unfolding D(3) by simp
          qed
          from cnt2 True E(2) z have "itemCount ?C = 1" by simp
          with D(4) InteriorNode have 7: "itemCount ?D + 1 = itemCount ?N" by simp
          from rm D(1) D(2) 4 5 6 7 show ?thesis
            by (intro exI [of _ True] exI [of _ "bm AND NOT (push_bit ?b 1)"] exI [of _ "take ?i cs @ drop (?i + 1) cs"]) simp
        next
          case nz: False
          let ?A = "InteriorNode bm cap (cs[?i := InteriorNode bm2 cap1 cs2])"
          from unfold True nz have rm: "remove_node ?N (h, k) s = Inr (True, ?A)" by (simp add: bind_res_def)
          have path2: "\<forall>l \<in> set (leaves (InteriorNode bm2 cap1 cs2)). childBitNumber (fst l) s = ?b"
            using lv2 cpath unfolding InteriorNode by blast
          note A = assign_child_props [OF inv Some inv2 nz path2]
          have 3: "set (leaves ?A) \<subseteq> set (leaves ?N)"
            using A(2) lv2 leaves_child_subset [OF p(1) Some, of cap] unfolding InteriorNode by blast
          have 4: "lookup ?A s h k = Inr None" unfolding A(3) using lk2 by simp
          have 5: "lookup ?A s h' k' = lookup ?N s h' k'" if "(h', k') \<noteq> (h, k)" for h' k'
          proof (cases "childBitNumber h' s = ?b")
            case True
            with oth2 [OF that] show ?thesis unfolding A(3) lkN [OF True] by simp
          next
            case False
            then show ?thesis unfolding A(3) by simp
          qed
          from A(4) cnt2 True InteriorNode have 7: "itemCount ?A + 1 = itemCount ?N" by simp
          from rm A(1) 3 4 5 6 7 show ?thesis
            by (intro exI [of _ True] exI [of _ bm] exI [of _ "cs[?i := InteriorNode bm2 cap1 cs2]"]) simp
        qed
      qed
    qed
  qed
qed

subsection \<open>When \<^verbatim>\<open>insert\<close> returns\<close>

lemma childBitNumber_eq_iff:
  "childBitNumber h s = childBitNumber h' s \<longleftrightarrow> (\<forall>n < 6. bit h (s + n) = bit h' (s + n))"
proof -
  have m: "(of_nat (kMaxChildren - 1) :: hash_t) = mask 6"
    by (simp add: kMaxChildren_def kBitShift_def mask_eq_exp_minus_1)
  have "childBitNumber h s = childBitNumber h' s \<longleftrightarrow> take_bit 6 (drop_bit s h) = take_bit 6 (drop_bit s h')"
    unfolding childBitNumber_def m by (simp add: take_bit_eq_mask word_unat_eq_iff)
  also have "\<dots> \<longleftrightarrow> (\<forall>n < 6. bit h (s + n) = bit h' (s + n))"
  proof
    assume e: "take_bit 6 (drop_bit s h) = take_bit 6 (drop_bit s h')"
    show "\<forall>n < 6. bit h (s + n) = bit h' (s + n)"
    proof (intro allI impI)
      fix n :: nat assume n: "n < 6"
      from e have "bit (take_bit 6 (drop_bit s h)) n = bit (take_bit 6 (drop_bit s h')) n" by simp
      with n show "bit h (s + n) = bit h' (s + n)"
        by (simp add: bit_take_bit_iff bit_drop_bit_eq add.commute)
    qed
  next
    assume a: "\<forall>n < 6. bit h (s + n) = bit h' (s + n)"
    show "take_bit 6 (drop_bit s h) = take_bit 6 (drop_bit s h')"
    proof (rule bit_eqI)
      fix n
      show "bit (take_bit 6 (drop_bit s h)) n = bit (take_bit 6 (drop_bit s h')) n"
        using a by (cases "n < 6") (simp_all add: bit_take_bit_iff bit_drop_bit_eq add.commute)
    qed
  qed
  finally show ?thesis .
qed

lemma agree_iff: "agree s h h' \<longleftrightarrow> (\<forall>n. s + n < 30 \<longrightarrow> bit h (s + n) = bit h' (s + n))"
proof
  assume e: "agree s h h'"
  show "\<forall>n. s + n < 30 \<longrightarrow> bit h (s + n) = bit h' (s + n)"
  proof (intro allI impI)
    fix n :: nat assume n: "s + n < 30"
    from e have "bit (drop_bit s (take_bit 30 h)) n = bit (drop_bit s (take_bit 30 h')) n"
      by (simp add: agree_def)
    with n show "bit h (s + n) = bit h' (s + n)"
      by (simp add: bit_take_bit_iff bit_drop_bit_eq add.commute)
  qed
next
  assume a: "\<forall>n. s + n < 30 \<longrightarrow> bit h (s + n) = bit h' (s + n)"
  have "drop_bit s (take_bit 30 h) = drop_bit s (take_bit 30 h')"
  proof (rule bit_eqI)
    fix n
    show "bit (drop_bit s (take_bit 30 h)) n = bit (drop_bit s (take_bit 30 h')) n"
      using a by (cases "s + n < 30") (simp_all add: bit_take_bit_iff bit_drop_bit_eq add.commute)
  qed
  then show "agree s h h'" by (simp add: agree_def)
qed

lemma agree_step:
  assumes "childBitNumber h s = childBitNumber h' s" and "agree (s + 6) h h'"
  shows "agree s h h'"
  unfolding agree_iff
proof (intro allI impI)
  fix n assume "s + n < 30"
  show "bit h (s + n) = bit h' (s + n)"
  proof (cases "n < 6")
    case True
    with assms(1) show ?thesis by (simp add: childBitNumber_eq_iff)
  next
    case False
    then obtain m where "n = 6 + m" using le_Suc_ex not_less by blast
    with assms(2) \<open>s + n < 30\<close> show ?thesis by (simp add: agree_iff add.assoc)
  qed
qed

lemma agree_beyond: "30 \<le> s \<Longrightarrow> agree s h h'"
  by (simp add: agree_iff)

lemma agree_0: "agree 0 h h' \<longleftrightarrow> take_bit 30 h = take_bit 30 h'"
  by (simp add: agree_def)

lemma insert_succeeds:
  assumes "hamt_inv s (InteriorNode bm cap cs)"
    and "\<forall>l \<in> set (leaves (InteriorNode bm cap cs)). agree s h (fst l) \<longrightarrow> fst l = h \<and> fst (snd l) = k"
  shows "\<exists>n' moved. insert_node (InteriorNode bm cap cs) (h, k, v) s = Inr (n', moved)"
  using assms
proof (induction "32 - s" arbitrary: s bm cap cs rule: less_induct)
  case less
  let ?N = "InteriorNode bm cap cs"
  let ?b = "childBitNumber h s"
  let ?i = "childIndexForBitNumber bm ?b"
  note inv = less.prems(1) and sep = less.prems(2)
  from hamt_inv_packed [OF inv] have p: "length cs = pop_count bm" "length cs \<le> cap" "cap \<le> 64"
    and s: "s + 6 < 32" "6 dvd s" by simp_all
  show ?case
  proof (cases "child_at bm cs ?b")
    case None
    from insert_free_slot [OF p s(1) None] show ?thesis by blast
  next
    case (Some c)
    from inv [unfolded hamt_inv_child_at] Some have
      cpath: "\<forall>l \<in> set (leaves c). childBitNumber (fst l) s = ?b" and cinv: "hamt_inv (s + 6) c"
      by blast+
    note sub = leaves_child_subset [OF p(1) Some, of cap]
    have lt: "32 - (s + 6) < 32 - s" using s by simp
    show ?thesis
    proof (cases c)
      case (LeafNode lh lk lv)
      note Leaf = Some [unfolded LeafNode]
      from cpath LeafNode have lb: "childBitNumber lh s = ?b" by simp
      from sub LeafNode have mem: "(lh, lk, lv) \<in> set (leaves ?N)" by auto
      show ?thesis
      proof (cases "lh = h \<and> lk = k")
        case True
        with insert_leaf_slot [OF p(1,2) s(1) Leaf] show ?thesis by auto
      next
        case False
        from sep [rule_format, OF mem] False have na: "\<not> agree s h lh" by auto
        with agree_step [of h s lh] lb have na6: "\<not> agree (s + 6) h lh" by auto
        have "s + 6 < 30"
        proof (rule ccontr)
          assume "\<not> s + 6 < 30"
          then have "30 \<le> s + 6" by simp
          from agree_beyond [OF this] na6 show False by blast
        qed
        with s(2) have s': "s + 6 + 6 < 32" by presburger
        from s have d: "6 dvd s + 6" by simp
        let ?M = "InteriorNode (push_bit (childBitNumber lh (s + 6)) 1) (start_capacity s) [LeafNode lh lk lv]"
        from start_capacity_bounds [of s] have sc: "0 < start_capacity s" "start_capacity s \<le> 64" by simp_all
        have Minv: "hamt_inv (s + 6) ?M" by (rule single_leaf_node(1) [OF s' d sc])
        have Msep: "\<forall>l \<in> set (leaves ?M). agree (s + 6) h (fst l) \<longrightarrow> fst l = h \<and> fst (snd l) = k"
          using na6 by simp
        from less.hyps [OF lt Minv Msep] obtain node2 moved2 where
          inner: "insert_node ?M (h, k, v) (s + 6) = Inr (node2, moved2)" by blast
        have "pop_count (push_bit (childBitNumber lh (s + 6)) 1) = 1"
          by (rule child_at_single(2) [OF childBitNumber_less])
        moreover have "2 \<le> start_capacity s" by (simp add: start_capacity_def)
        ultimately have "\<not> moved2" using insert_props [OF Minv inner] by auto
        with insert_leaf_slot [OF p(1,2) s(1) Leaf, of k v] False inner show ?thesis
          by (auto simp: bind_res_def)
      qed
    next
      case (InteriorNode bm1 cap1 cs1)
      note Int = Some [unfolded InteriorNode]
      have csep: "\<forall>l \<in> set (leaves (InteriorNode bm1 cap1 cs1)). agree (s + 6) h (fst l) \<longrightarrow> fst l = h \<and> fst (snd l) = k"
      proof (intro ballI impI)
        fix l assume l: "l \<in> set (leaves (InteriorNode bm1 cap1 cs1))" and a: "agree (s + 6) h (fst l)"
        from l InteriorNode have lc: "l \<in> set (leaves c)" by simp
        from cpath [rule_format, OF lc] have "childBitNumber h s = childBitNumber (fst l) s" by simp
        from agree_step [OF this a] have ag: "agree s h (fst l)" .
        from sub lc have "l \<in> set (leaves (InteriorNode bm cap cs))" by blast
        from sep [rule_format, OF this ag] show "fst l = h \<and> fst (snd l) = k" .
      qed
      from less.hyps [OF lt cinv [unfolded InteriorNode] csep] obtain node m1 where
        "insert_node (InteriorNode bm1 cap1 cs1) (h, k, v) (s + 6) = Inr (node, m1)" by blast
      with insert_interior_slot [OF p(1,2) s(1) Int, of k v] show ?thesis by (auto simp: bind_res_def)
    qed
  qed
qed

text \<open>Every leaf of a well-shaped tree is the one that \<^verbatim>\<open>find\<close> reaches for its hash.\<close>

lemma leaf_found:
  assumes "hamt_inv s (InteriorNode bm cap cs)" and "(h, k, v) \<in> set (leaves (InteriorNode bm cap cs))"
  shows "lookup (InteriorNode bm cap cs) s h k = Inr (Some v)"
  using assms
proof (induction "32 - s" arbitrary: s bm cap cs rule: less_induct)
  case less
  note inv = less.prems(1)
  from hamt_inv_packed [OF inv] have p: "length cs = pop_count bm" "length cs \<le> cap"
    and s: "s + 6 < 32" by simp_all
  from less.prems(2) obtain c where c: "c \<in> set cs" and l: "(h, k, v) \<in> set (leaves c)" by auto
  from c obtain i where i: "i < length cs" "cs ! i = c" by (auto simp: in_set_conv_nth)
  from nth_child_at [OF p(1) i(1)] i(2) have ca: "child_at bm cs (slots bm ! i) = Some c" by simp
  from inv [unfolded hamt_inv_child_at] ca l have
    b: "childBitNumber h s = slots bm ! i" and cinv: "hamt_inv (s + 6) c"
    by fastforce+
  show ?case
  proof (cases c)
    case (LeafNode lh lk lv)
    with l ca b show ?thesis unfolding lookup_child_at [OF p] by simp
  next
    case (InteriorNode bm1 cap1 cs1)
    have "32 - (s + 6) < 32 - s" using s by simp
    from less.hyps [OF this cinv [unfolded InteriorNode] l [unfolded InteriorNode]] ca b InteriorNode
    show ?thesis unfolding lookup_child_at [OF p] by (simp add: kBitShift_def)
  qed
qed

lemma hamt_inv_min_children:
  "hamt_inv s n \<Longrightarrow> min_children 1 n"
proof (induction n arbitrary: s)
  case (LeafNode h k v)
  show ?case by simp
next
  case (InteriorNode bm cap cs)
  have "(case c of InteriorNode bm' cap' cs' \<Rightarrow> 1 \<le> childCount bm' \<and> 1 \<le> length cs'
                  | LeafNode h k v \<Rightarrow> True) \<and> min_children 1 c" if c: "c \<in> set cs" for c
  proof -
    from c obtain i where i: "i < length cs" "cs ! i = c" by (auto simp: in_set_conv_nth)
    with InteriorNode.prems have ne: "case c of InteriorNode bm' cap' cs' \<Rightarrow> bm' \<noteq> 0 | LeafNode h k v \<Rightarrow> True"
      and ci: "hamt_inv (s + kBitShift) c" by auto
    from InteriorNode.IH [OF c ci] have m: "min_children 1 c" .
    show ?thesis
    proof (cases c)
      case (LeafNode h k v)
      with m show ?thesis by simp
    next
      case (InteriorNode bm' cap' cs')
      with ne have "pop_count bm' \<noteq> 0" by (simp add: pop_count_0_iff)
      moreover from ci InteriorNode have "length cs' = pop_count bm'" by simp
      ultimately show ?thesis using m InteriorNode by (simp add: childCount_def)
    qed
  qed
  then show ?case unfolding min_children.simps by blast
qed

subsection \<open>The tree as a finite map\<close>

lemma hamt_inv_new_root: "hamt_inv 0 (InteriorNode 0 kMaxChildren [])"
  by (simp add: pop_count_def kMaxChildren_def kBitShift_def)

lemma represents_empty:
  fixes hash :: "'k \<Rightarrow> hash_t"
  shows "represents hash (newInteriorNode kMaxChildren :: ('k, 'v) node) Map.empty"
proof -
  let ?r = "InteriorNode 0 kMaxChildren [] :: ('k, 'v) node"
  have i: "hamt_inv 0 ?r" by (rule hamt_inv_new_root)
  have "lookup ?r 0 (hash k) k = Inr None" for k by (rule empty_node(1) [OF i])
  moreover have "itemCount ?r = 0" by (rule empty_node(2) [OF i])
  ultimately show ?thesis unfolding represents_def newInteriorNode_def using i by simp
qed

lemma represents_get:
  assumes "represents hash r m"
  shows "HAMTree_get hash (Some r) k = Inr (m k)"
proof -
  from assms have "lookup r 0 (hash k) k = Inr (m k)" by (simp add: represents_def)
  then show ?thesis by (simp add: HAMTree_get_def lookup_def)
qed

lemma represents_count:
  assumes "represents hash r m"
  shows "HAMTree_count (Some r) = card (dom m)"
  using assms by (simp add: represents_def HAMTree_count_def)

lemma represents_leaf:
  assumes "represents hash r m" and "(h, k, v) \<in> set (leaves r)"
  shows "h = hash k" and "m k = Some v"
proof -
  from assms obtain bm cs where r: "r = InteriorNode bm kMaxChildren cs" and inv: "hamt_inv 0 r"
    and hk: "\<forall>l \<in> set (leaves r). fst l = hash (fst (snd l))"
    and lk: "lookup r 0 (hash k) k = Inr (m k)"
    by (auto simp: represents_def)
  from hk [rule_format, OF assms(2)] show h: "h = hash k" by simp
  from leaf_found [OF inv [unfolded r] assms(2) [unfolded r]] lk h r show "m k = Some v" by simp
qed

lemma represents_insert:
  assumes rep: "represents hash r m"
    and sep: "\<forall>k' \<in> dom m. take_bit 30 (hash k') = take_bit 30 (hash k) \<longrightarrow> k' = k"
  shows "\<exists>r'. insert_node r (hash k, k, v) 0 = Inr (r', False) \<and> represents hash r' (m(k \<mapsto> v))"
proof -
  from rep obtain bm cs where r: "r = InteriorNode bm kMaxChildren cs" and inv: "hamt_inv 0 r"
    and hk: "\<forall>l \<in> set (leaves r). fst l = hash (fst (snd l))"
    and lk: "\<And>k. lookup r 0 (hash k) k = Inr (m k)"
    and fin: "finite (dom m)" and cnt: "itemCount r = card (dom m)"
    by (auto simp: represents_def)
  have lsep: "\<forall>l \<in> set (leaves (InteriorNode bm kMaxChildren cs)).
                agree 0 (hash k) (fst l) \<longrightarrow> fst l = hash k \<and> fst (snd l) = k"
  proof (intro ballI impI)
    fix l assume l: "l \<in> set (leaves (InteriorNode bm kMaxChildren cs))"
      and a: "agree 0 (hash k) (fst l)"
    obtain h' k' v' where l': "l = (h', k', v')" by (cases l)
    from l l' r have mem: "(h', k', v') \<in> set (leaves r)" by simp
    from represents_leaf [OF rep mem] have h': "h' = hash k'" and "m k' = Some v'" .
    then have "k' \<in> dom m" by blast
    moreover from a l' h' have "take_bit 30 (hash k') = take_bit 30 (hash k)" by (simp add: agree_0)
    ultimately have "k' = k" using sep by blast
    with l' h' show "fst l = hash k \<and> fst (snd l) = k" by simp
  qed
  from insert_succeeds [OF inv [unfolded r] lsep] obtain r' moved where
    ins: "insert_node (InteriorNode bm kMaxChildren cs) (hash k, k, v) 0 = Inr (r', moved)" by blast
  note P = insert_props [OF inv [unfolded r] ins]
  from P obtain bm' cs' where r': "r' = InteriorNode bm' (if moved then kMaxChildren + 1 else kMaxChildren) cs'"
    by blast
  from P have inv': "hamt_inv 0 r'" by blast
  have nm: "\<not> moved"
  proof
    assume moved
    with r' inv' show False by simp
  qed
  from P have lv: "set (leaves r') \<subseteq> insert (hash k, k, v) (set (leaves r))" unfolding r by blast
  from P have l1: "lookup r' 0 (hash k) k = Inr (Some v)" by blast
  from P have l2: "\<And>h' k'. (h', k') \<noteq> (hash k, k) \<Longrightarrow> lookup r' 0 h' k' = lookup r 0 h' k'"
    unfolding r by blast
  from P have ic: "itemCount r' = itemCount r + (if lookup r 0 (hash k) k = Inr None then 1 else 0)"
    unfolding r by blast
  have a: "\<forall>l \<in> set (leaves r'). fst l = hash (fst (snd l))" using lv hk by auto
  have b: "\<forall>k'. lookup r' 0 (hash k') k' = Inr ((m(k \<mapsto> v)) k')"
  proof
    fix k'
    show "lookup r' 0 (hash k') k' = Inr ((m(k \<mapsto> v)) k')"
    proof (cases "k' = k")
      case True
      with l1 show ?thesis by simp
    next
      case False
      then have "(hash k', k') \<noteq> (hash k, k)" by simp
      from l2 [OF this] lk [of k'] False show ?thesis by simp
    qed
  qed
  have c: "itemCount r' = card (dom (m(k \<mapsto> v)))"
  proof (cases "m k")
    case None
    then have "k \<notin> dom m" by blast
    with fin have "card (insert k (dom m)) = card (dom m) + 1" by simp
    with ic lk [of k] None cnt show ?thesis by simp
  next
    case (Some w)
    then have "insert k (dom m) = dom m" by blast
    with ic lk [of k] Some cnt show ?thesis by simp
  qed
  from r' nm a b c inv' fin have "represents hash r' (m(k \<mapsto> v))"
    by (simp add: represents_def)
  with ins nm r show ?thesis by auto
qed

lemma represents_remove:
  assumes rep: "represents hash r m"
  shows "\<exists>r'. remove_node r (hash k, k) 0 = Inr (m k \<noteq> None, r') \<and> represents hash r' (m(k := None))"
proof -
  from rep obtain bm cs where r: "r = InteriorNode bm kMaxChildren cs" and inv: "hamt_inv 0 r"
    and hk: "\<forall>l \<in> set (leaves r). fst l = hash (fst (snd l))"
    and lk: "\<And>k. lookup r 0 (hash k) k = Inr (m k)"
    and fin: "finite (dom m)" and cnt: "itemCount r = card (dom m)"
    by (auto simp: represents_def)
  from remove_props [OF inv [unfolded r], of "hash k" k] obtain removed bm' cs' where
    rm: "remove_node r (hash k, k) 0 = Inr (removed, InteriorNode bm' kMaxChildren cs')"
    and inv': "hamt_inv 0 (InteriorNode bm' kMaxChildren cs')"
    and lv: "set (leaves (InteriorNode bm' kMaxChildren cs')) \<subseteq> set (leaves r)"
    and l1: "lookup (InteriorNode bm' kMaxChildren cs') 0 (hash k) k = Inr None"
    and l2: "\<And>h' k'. (h', k') \<noteq> (hash k, k) \<Longrightarrow>
               lookup (InteriorNode bm' kMaxChildren cs') 0 h' k' = lookup r 0 h' k'"
    and rd: "removed \<longleftrightarrow> lookup r 0 (hash k) k \<noteq> Inr None"
    and ic: "itemCount (InteriorNode bm' kMaxChildren cs') + (if removed then 1 else 0) = itemCount r"
    unfolding r by blast
  let ?r = "InteriorNode bm' kMaxChildren cs'"
  from rd lk [of k] have rd': "removed \<longleftrightarrow> m k \<noteq> None" by simp
  have a: "\<forall>l \<in> set (leaves ?r). fst l = hash (fst (snd l))" using lv hk by blast
  have b: "\<forall>k'. lookup ?r 0 (hash k') k' = Inr ((m(k := None)) k')"
  proof
    fix k'
    show "lookup ?r 0 (hash k') k' = Inr ((m(k := None)) k')"
    proof (cases "k' = k")
      case True
      with l1 show ?thesis by simp
    next
      case False
      then have "(hash k', k') \<noteq> (hash k, k)" by simp
      from l2 [OF this] lk [of k'] False show ?thesis by simp
    qed
  qed
  have d: "dom (m(k := None)) = dom m - {k}" by auto
  have c: "itemCount ?r = card (dom (m(k := None)))"
  proof (cases "m k")
    case None
    then have "dom m - {k} = dom m" by blast
    with ic rd' None cnt d show ?thesis by simp
  next
    case (Some w)
    then have "k \<in> dom m" by blast
    with fin have "card (dom m - {k}) + 1 = card (dom m)"
      by (metis Suc_eq_plus1 card_Suc_Diff1)
    with ic rd' Some cnt d show ?thesis by simp
  qed
  from a b c inv' fin have "represents hash ?r (m(k := None))"
    by (simp add: represents_def)
  with rm rd' show ?thesis by auto
qed

subsection \<open>Sequences of calls\<close>

lemma represents_unique:
  assumes "represents hash r m" and "represents hash r m'"
  shows "m = m'"
proof
  fix k
  from assms have "lookup r 0 (hash k) k = Inr (m k)" "lookup r 0 (hash k) k = Inr (m' k)"
    by (simp_all add: represents_def)
  then show "m k = m' k" by simp
qed

lemma tree_get:
  assumes "represents hash (root_node t) m"
  shows "HAMTree_get hash t k = Inr (m k)"
proof (cases t)
  case None
  with assms represents_unique [OF represents_empty] have "m = Map.empty"
    by (metis option.simps(4) root_node_def)
  with None show ?thesis by (simp add: HAMTree_get_def)
next
  case (Some r)
  with assms represents_get [of hash r m k] show ?thesis by (simp add: root_node_def)
qed

lemma tree_count:
  assumes "represents hash (root_node t) m"
  shows "HAMTree_count t = card (dom m)"
proof (cases t)
  case None
  with assms represents_unique [OF represents_empty] have "m = Map.empty"
    by (metis option.simps(4) root_node_def)
  with None show ?thesis by (simp add: HAMTree_count_def)
next
  case (Some r)
  with assms represents_count [of hash r m] show ?thesis by (simp add: root_node_def)
qed

lemma tree_insert:
  assumes "represents hash (root_node t) m"
    and "\<forall>k' \<in> dom m. take_bit 30 (hash k') = take_bit 30 (hash k) \<longrightarrow> k' = k"
  shows "\<exists>t'. HAMTree_insert hash t k v = Inr t' \<and> represents hash (root_node t') (m(k \<mapsto> v))"
proof -
  from represents_insert [OF assms, of v] obtain r' where
    "insert_node (root_node t) (hash k, k, v) 0 = Inr (r', False)" "represents hash r' (m(k \<mapsto> v))"
    by blast
  then show ?thesis by (simp add: HAMTree_insert_def root_node_def bind_res_def)
qed

lemma tree_remove:
  assumes "represents hash (root_node t) m"
  shows "\<exists>t'. HAMTree_remove hash t k = Inr (m k \<noteq> None, t') \<and> represents hash (root_node t') (m(k := None))"
proof (cases t)
  case None
  with assms represents_unique [OF represents_empty] have "m = Map.empty"
    by (metis option.simps(4) root_node_def)
  with None assms show ?thesis by (simp add: HAMTree_remove_def)
next
  case (Some r)
  with assms have "represents hash r m" by (simp add: root_node_def)
  from represents_remove [OF this, of k] Some show ?thesis
    by (auto simp: HAMTree_remove_def root_node_def bind_res_def)
qed

lemma insert_calls:
  assumes "represents hash (root_node t) m"
    and "distinct (map (\<lambda>(k, v). take_bit 30 (hash k)) kvs)"
    and "\<forall>k' \<in> dom m. \<forall>(k, v) \<in> set kvs. take_bit 30 (hash k') \<noteq> take_bit 30 (hash k)"
  shows "\<exists>t'. do_tree_calls hash (map (\<lambda>(k, v). Insert k v) kvs) t = Inr t'
             \<and> represents hash (root_node t') (m ++ map_of (rev kvs))"
  using assms
proof (induction kvs arbitrary: t m)
  case Nil
  then show ?case by simp
next
  case (Cons kv kvs)
  obtain k v where kv: "kv = (k, v)" by (cases kv)
  from Cons.prems(3) kv have "\<forall>k' \<in> dom m. take_bit 30 (hash k') = take_bit 30 (hash k) \<longrightarrow> k' = k"
    by auto
  from tree_insert [OF Cons.prems(1) this, of v] obtain t1 where
    t1: "HAMTree_insert hash t k v = Inr t1" "represents hash (root_node t1) (m(k \<mapsto> v))" by blast
  from Cons.prems(2) kv have d: "distinct (map (\<lambda>(k, v). take_bit 30 (hash k)) kvs)"
    and nk: "\<forall>(k', v') \<in> set kvs. take_bit 30 (hash k) \<noteq> take_bit 30 (hash k')"
    by auto
  have fr: "\<forall>k' \<in> dom (m(k \<mapsto> v)). \<forall>(k, v) \<in> set kvs. take_bit 30 (hash k') \<noteq> take_bit 30 (hash k)"
    using Cons.prems(3) nk by auto
  from Cons.IH [OF t1(2) d fr] obtain t' where
    t': "do_tree_calls hash (map (\<lambda>(k, v). Insert k v) kvs) t1 = Inr t'"
      "represents hash (root_node t') (m(k \<mapsto> v) ++ map_of (rev kvs))" by blast
  have "m ++ map_of (rev (kv # kvs)) = m(k \<mapsto> v) ++ map_of (rev kvs)"
    unfolding kv by (simp add: map_add_upd_left)
  with t1(1) t' kv show ?case by (simp add: bind_res_def)
qed

lemma remove_calls:
  assumes "represents hash (root_node t) m"
  shows "\<exists>t'. do_tree_calls hash (map (\<lambda>(k, v). Remove k) kvs) t = Inr t'
             \<and> represents hash (root_node t') (m |` (- fst ` set kvs))"
  using assms
proof (induction kvs arbitrary: t m)
  case Nil
  then show ?case by simp
next
  case (Cons kv kvs)
  obtain k v where kv: "kv = (k, v)" by (cases kv)
  from tree_remove [OF Cons.prems, of k] obtain t1 where
    t1: "HAMTree_remove hash t k = Inr (m k \<noteq> None, t1)" "represents hash (root_node t1) (m(k := None))"
    by blast
  from Cons.IH [OF t1(2)] obtain t' where
    t': "do_tree_calls hash (map (\<lambda>(k, v). Remove k) kvs) t1 = Inr t'"
      "represents hash (root_node t') ((m(k := None)) |` (- fst ` set kvs))" by blast
  have "(m(k := None)) |` (- fst ` set kvs) = m |` (- fst ` set (kv # kvs))"
    unfolding kv by (auto simp: restrict_map_def fun_eq_iff)
  with t1(1) t' kv show ?case by (simp add: bind_res_def)
qed

lemma map_of_rev_distinct:
  assumes "distinct (map fst kvs)" and "(k, v) \<in> set kvs"
  shows "map_of (rev kvs) k = Some v"
proof -
  from assms(1) have "distinct (map fst (rev kvs))" by (simp add: rev_map [symmetric])
  moreover from assms(2) have "(k, v) \<in> set (rev kvs)" by simp
  ultimately show ?thesis by (rule map_of_is_SomeI)
qed

lemma distinct_keys:
  assumes "distinct (map (\<lambda>(k, v). take_bit 30 (hash k)) kvs)"
  shows "distinct (map fst kvs)"
proof -
  have "map (\<lambda>(k, v). take_bit 30 (hash k)) kvs = map (\<lambda>k. take_bit 30 (hash k)) (map fst kvs)"
    by (simp add: case_prod_unfold)
  with assms show ?thesis by (metis distinct_map)
qed

text \<open>The shape that every successful call keeps.\<close>

lemma tree_call_inv:
  assumes "do_tree_call hash c t = Inr t'"
    and "\<exists>bm cs. root_node t = InteriorNode bm kMaxChildren cs \<and> hamt_inv 0 (root_node t)"
  shows "\<exists>bm cs. root_node t' = InteriorNode bm kMaxChildren cs \<and> hamt_inv 0 (root_node t')"
proof -
  from assms(2) obtain bm cs where r: "root_node t = InteriorNode bm kMaxChildren cs"
    and inv: "hamt_inv 0 (InteriorNode bm kMaxChildren cs)" by auto
  show ?thesis
  proof (cases c)
    case (Insert k v)
    with assms(1) obtain r' moved where
      ins: "insert_node (InteriorNode bm kMaxChildren cs) (hash k, k, v) 0 = Inr (r', moved)"
      and t': "\<not> moved" "t' = Some r'"
      by (auto simp: HAMTree_insert_def bind_res_def r [unfolded root_node_def]
               split: sum.splits if_splits)
    from insert_props [OF inv ins] t' show ?thesis by (auto simp: root_node_def)
  next
    case (Remove k)
    show ?thesis
    proof (cases t)
      case None
      with Remove assms show ?thesis by (simp add: HAMTree_remove_def bind_res_def)
    next
      case (Some r0)
      with r have r0: "r0 = InteriorNode bm kMaxChildren cs" by (simp add: root_node_def)
      from remove_props [OF inv, of "hash k" k] obtain removed bm' cs' where
        "remove_node (InteriorNode bm kMaxChildren cs) (hash k, k) 0 = Inr (removed, InteriorNode bm' kMaxChildren cs')"
        "hamt_inv 0 (InteriorNode bm' kMaxChildren cs')" by blast
      with Remove Some r0 assms(1) show ?thesis
        by (auto simp: HAMTree_remove_def bind_res_def root_node_def)
    qed
  qed
qed

lemma tree_calls_inv:
  assumes "do_tree_calls hash calls t = Inr t'"
    and "\<exists>bm cs. root_node t = InteriorNode bm kMaxChildren cs \<and> hamt_inv 0 (root_node t)"
  shows "\<exists>bm cs. root_node t' = InteriorNode bm kMaxChildren cs \<and> hamt_inv 0 (root_node t')"
  using assms
proof (induction calls arbitrary: t)
  case Nil
  then show ?case by simp
next
  case (Cons c calls)
  from Cons.prems(1) obtain t1 where c: "do_tree_call hash c t = Inr t1"
    and cs: "do_tree_calls hash calls t1 = Inr t'"
    by (auto simp: bind_res_def split: sum.splits)
  from Cons.IH [OF cs tree_call_inv [OF c Cons.prems(2)]] show ?case .
qed

subsection \<open>Insert, get, count and remove\<close>

text \<open>
  C3: the code at the failing input. Two keys whose 32-bit hashes are different but differ
  only above bit 29: with the hash of a key being the key itself, the keys \<open>0\<close> and
  \<open>2 ^ 30\<close>. The first \<^verbatim>\<open>insert\<close> puts a leaf into the root. The two hashes have the same
  slice at the shifts 0, 6, 12, 18 and 24, so the second \<^verbatim>\<open>insert\<close> builds a chain of
  interior nodes and calls itself at shift 30, where its own assertion
  \<^verbatim>\<open>shift + kBitShift < 8*sizeof(hash_t)\<close> fails: the call does not return, and no
  \<^verbatim>\<open>get\<close> or \<^verbatim>\<open>count\<close> follows.
\<close>

theorem insert_beyond_depth:
  "do_tree_calls id [Insert (0 :: 32 word) (1 :: nat)] None
     = Inr (Some (InteriorNode 1 64 [LeafNode 0 0 1]))
   \<and> do_tree_calls id [Insert (0 :: 32 word) (1 :: nat), Insert (2 ^ 30) 2] None
     = Inl AssertionFailed
   \<and> id (0 :: 32 word) \<noteq> id (2 ^ 30)"
  by code_simp

text \<open>
  Where the code does what is asked of it: for any sequence of \<^verbatim>\<open>insert\<close> calls into a
  new tree with keys whose hashes are pairwise different in their low 30 bits (so the keys
  are pairwise distinct), every call returns; afterwards \<^verbatim>\<open>get\<close> of each key returns its
  value and \<^verbatim>\<open>count\<close> returns the number of calls; the \<^verbatim>\<open>remove\<close> calls for all the keys
  return as well, and after them \<^verbatim>\<open>get\<close> of each key returns nothing and \<^verbatim>\<open>count\<close>
  returns 0.
\<close>

lemma hamt_round_trip:
  assumes "distinct (map (\<lambda>(k, v). take_bit 30 (hash k)) kvs)"
  shows "\<exists>t t'. do_tree_calls hash (map (\<lambda>(k, v). Insert k v) kvs) None = Inr t
             \<and> (\<forall>(k, v) \<in> set kvs. HAMTree_get hash t k = Inr (Some v))
             \<and> HAMTree_count t = length kvs
             \<and> do_tree_calls hash (map (\<lambda>(k, v). Remove k) kvs) t = Inr t'
             \<and> (\<forall>(k, v) \<in> set kvs. HAMTree_get hash t' k = Inr None)
             \<and> HAMTree_count t' = 0"
proof -
  let ?m = "map_of (rev kvs)"
  have e: "represents hash (root_node None) Map.empty"
    unfolding root_node_def by (simp add: represents_empty)
  from insert_calls [OF e assms] obtain t where
    t: "do_tree_calls hash (map (\<lambda>(k, v). Insert k v) kvs) None = Inr t"
    and rt: "represents hash (root_node t) ?m" by auto
  from remove_calls [OF rt, of kvs] obtain t' where
    t': "do_tree_calls hash (map (\<lambda>(k, v). Remove k) kvs) t = Inr t'"
    and rt': "represents hash (root_node t') (?m |` (- fst ` set kvs))" by blast
  note dk = distinct_keys [OF assms]
  have g: "\<forall>(k, v) \<in> set kvs. HAMTree_get hash t k = Inr (Some v)"
    using map_of_rev_distinct [OF dk] by (auto simp: tree_get [OF rt])
  have "dom ?m = fst ` set kvs" by (simp add: dom_map_of_conv_image_fst)
  then have "card (dom ?m) = length kvs" using dk by (metis distinct_card length_map set_map)
  then have c: "HAMTree_count t = length kvs" by (simp add: tree_count [OF rt])
  have z: "?m |` (- fst ` set kvs) = Map.empty"
    by (auto simp: restrict_map_def fun_eq_iff map_of_eq_None_iff)
  have g': "\<forall>(k, v) \<in> set kvs. HAMTree_get hash t' k = Inr None"
    by (simp add: tree_get [OF rt'] z)
  have c': "HAMTree_count t' = 0" by (simp add: tree_count [OF rt'] z)
  from t g c t' g' c' show ?thesis by blast
qed

lemma hamt_round_trip_instance:
  "distinct (map (\<lambda>(k, v). take_bit 30 (id k)) [(0 :: 32 word, 1 :: nat), (64, 2)])
   \<and> (\<exists>t t'. do_tree_calls id (map (\<lambda>(k, v). Insert k v) [(0 :: 32 word, 1 :: nat), (64, 2)]) None = Inr t
             \<and> (\<forall>(k, v) \<in> set [(0 :: 32 word, 1 :: nat), (64, 2)]. HAMTree_get id t k = Inr (Some v))
             \<and> HAMTree_count t = length [(0 :: 32 word, 1 :: nat), (64, 2)]
             \<and> do_tree_calls id (map (\<lambda>(k, v). Remove k) [(0 :: 32 word, 1 :: nat), (64, 2)]) t = Inr t'
             \<and> (\<forall>(k, v) \<in> set [(0 :: 32 word, 1 :: nat), (64, 2)]. HAMTree_get id t' k = Inr None)
             \<and> HAMTree_count t' = 0)"
proof -
  have d: "distinct (map (\<lambda>(k, v). take_bit 30 (id k)) [(0 :: 32 word, 1 :: nat), (64, 2)])"
    by simp
  from hamt_round_trip [OF d] d show ?thesis by blast
qed

subsection \<open>The number of children of an interior node\<close>

text \<open>
  C6, as the claim has it, fails: \<^verbatim>\<open>remove\<close> takes an interior node out of its parent only
  when its bitmap has become 0. With the hash of a key being the key itself, the keys
  \<open>0\<close> and \<open>64\<close> share the slice 0 of the root and get an interior node of their own;
  after \<^verbatim>\<open>remove(64)\<close> that node is still there and holds exactly one child, the leaf of
  key \<open>0\<close>.
\<close>

theorem single_child_counterexample:
  "do_tree_calls id [Insert (0 :: 32 word) (1 :: nat), Insert 64 2, Remove 64] None
     = Inr (Some (InteriorNode 1 64 [InteriorNode 1 4 [LeafNode 0 0 1]]))
   \<and> \<not> min_children 2 (InteriorNode 1 64 [InteriorNode 1 4 [LeafNode (0 :: 32 word) (0 :: 32 word) (1 :: nat)]])"
  by code_simp

text \<open>
  C6, amended. After any sequence of \<^verbatim>\<open>insert\<close> and \<^verbatim>\<open>remove\<close> calls on a new tree that
  all return, every interior node below the root holds at least one child: its bitmap is
  not 0 and its child array is not empty.
\<close>

theorem interior_nodes_nonempty:
  assumes "do_tree_calls hash calls None = Inr (Some r)"
  shows "min_children 1 r"
proof -
  have "\<exists>bm cs. root_node None = InteriorNode bm kMaxChildren cs \<and> hamt_inv 0 (root_node None)"
    unfolding root_node_def newInteriorNode_def using hamt_inv_new_root by simp
  from tree_calls_inv [OF assms this] have "hamt_inv 0 r" by (simp add: root_node_def)
  then show ?thesis by (rule hamt_inv_min_children)
qed

theorem interior_nodes_nonempty_witness:
  "do_tree_calls id [Insert (0 :: 32 word) (1 :: nat), Insert 64 2, Remove 64] None
     = Inr (Some (InteriorNode 1 64 [InteriorNode 1 4 [LeafNode 0 0 1]]))
   \<and> min_children 1 (InteriorNode 1 64 [InteriorNode 1 4 [LeafNode (0 :: 32 word) (0 :: 32 word) (1 :: nat)]])"
proof -
  have e: "do_tree_calls id [Insert (0 :: 32 word) (1 :: nat), Insert 64 2, Remove 64] None
     = Inr (Some (InteriorNode 1 64 [InteriorNode 1 4 [LeafNode 0 0 1]]))"
    by code_simp
  from interior_nodes_nonempty [OF e] e show ?thesis by simp
qed
end
